theory Spec2Isabelle
  imports Main "HOL-Library.FSet" "HOL-Library.Sublist"
begin

section \<open>Python strings\<close>

text \<open>
  A Python \<open>str\<close> is modelled as an Isabelle \<open>string\<close> of ASCII characters.
  The helpers below are the string methods that \<open>main.py\<close> calls.
\<close>

definition is_space :: "char \<Rightarrow> bool" where
  "is_space c = (c \<in> set [CHR 0x09, CHR 0x0A, CHR 0x0B, CHR 0x0C, CHR 0x0D,
                            CHR 0x1C, CHR 0x1D, CHR 0x1E, CHR 0x1F, CHR '' ''])"

definition strip :: "string \<Rightarrow> string" where
  "strip s = rev (dropWhile is_space (rev (dropWhile is_space s)))"

fun split_on :: "char \<Rightarrow> string \<Rightarrow> string list" where
  "split_on c [] = [[]]"
| "split_on c (x # xs) =
     (if x = c then [] # split_on c xs
      else (case split_on c xs of [] \<Rightarrow> [[x]] | y # ys \<Rightarrow> (x # y) # ys))"

definition startswith :: "string \<Rightarrow> string \<Rightarrow> bool" where
  "startswith s p = prefix p s"

definition contains :: "string \<Rightarrow> string \<Rightarrow> bool" where
  \<comment> \<open>\<open>sub in s\<close>\<close>
  "contains sub s = sublist sub s"

definition lower_char :: "char \<Rightarrow> char" where
  "lower_char c =
     (case map_of (zip ''ABCDEFGHIJKLMNOPQRSTUVWXYZ'' ''abcdefghijklmnopqrstuvwxyz'') c of
        None \<Rightarrow> c | Some d \<Rightarrow> d)"

definition lower :: "string \<Rightarrow> string" where
  "lower s = map lower_char s"

definition is_digit :: "char \<Rightarrow> bool" where
  "is_digit c = (c \<in> set ''0123456789'')"

definition isdigit :: "string \<Rightarrow> bool" where
  \<comment> \<open>\<open>s.isdigit()\<close>: non-empty and every character a digit\<close>
  "isdigit s = (s \<noteq> [] \<and> list_all is_digit s)"

definition digit_val :: "char \<Rightarrow> int" where
  "digit_val c = (case map_of (zip ''0123456789'' [0, 1, 2, 3, 4, 5, 6, 7, 8, 9]) c of
                    None \<Rightarrow> 0 | Some d \<Rightarrow> d)"

definition int_of_digits :: "string \<Rightarrow> int" where
  \<comment> \<open>\<open>int(s)\<close> for a string of decimal digits\<close>
  "int_of_digits s = foldl (\<lambda>a c. 10 * a + digit_val c) 0 s"

section \<open>Exceptions\<close>

datatype exn =
    IndexError
  | AttributeError
  | TypeError
  | ValueError
  | ValidationError
  | JSONDecodeError
  | ProxyError string
  | RequestException string
  | HTTPError string
  | OtherError string
  | RetriesExhausted

section \<open>The outside world\<close>

text \<open>
  What the remote proxy list answers to one \<open>requests.get\<close> of \<open>load_proxies\<close>:
  a failure (any exception, including a bad status), or the response text.
\<close>

datatype fetch_outcome = FetchFailed | FetchText string

section \<open>ProxyManager\<close>

text \<open>
  The fields of \<open>ProxyManager\<close>, together with the part of the outside world its
  methods read: \<open>proxy_source k\<close> is the outcome of the \<open>k\<close>-th download of the proxy
  list, \<open>shuffle k\<close> the permutation \<open>random.shuffle\<close> picks at that download, and
  \<open>n_loads\<close> counts the downloads made so far.
\<close>

record proxy_manager =
  proxies :: "string list"
  current_proxy_index :: nat
  failed_proxies :: "string fset"
  proxy_source :: "nat \<Rightarrow> fetch_outcome"
  shuffle :: "nat \<Rightarrow> string list \<Rightarrow> string list"
  n_loads :: nat

definition parse_proxy_lines :: "string \<Rightarrow> string list" where
  "parse_proxy_lines text =
     filter (\<lambda>line. line \<noteq> [] \<and> startswith line ''http://'')
       (map strip (split_on (CHR 0x0A) (strip text)))"

definition load_proxies :: "proxy_manager \<Rightarrow> proxy_manager" where
  "load_proxies pm =
     (let k = n_loads pm;
          pm1 = pm\<lparr>n_loads := Suc k\<rparr>
      in case proxy_source pm k of
           FetchFailed \<Rightarrow> pm1\<lparr>proxies := []\<rparr>
         | FetchText text \<Rightarrow> pm1\<lparr>proxies := shuffle pm k (parse_proxy_lines text)\<rparr>)"

text \<open>
  The \<open>while attempts < len(self.proxies)\<close> loop of \<open>get_proxy\<close>. The first argument
  is the number of iterations left. \<open>self.proxies[self.current_proxy_index]\<close> raises
  \<open>IndexError\<close> when the cursor is not an index of the list.
\<close>

datatype scan_result = Found string | AllFailed | ScanRaised exn

fun find_working :: "nat \<Rightarrow> proxy_manager \<Rightarrow> scan_result \<times> proxy_manager" where
  "find_working 0 pm = (AllFailed, pm)"
| "find_working (Suc k) pm =
     (if current_proxy_index pm \<ge> length (proxies pm) then (ScanRaised IndexError, pm)
      else let proxy = proxies pm ! current_proxy_index pm
           in if proxy |\<notin>| failed_proxies pm then (Found proxy, pm)
              else find_working k
                     (pm\<lparr>current_proxy_index :=
                          (current_proxy_index pm + 1) mod length (proxies pm)\<rparr>))"

definition too_many_failed :: "proxy_manager \<Rightarrow> bool" where
  \<comment> \<open>\<open>len(self.failed_proxies) > len(self.proxies) * 0.8\<close>, in integers\<close>
  "too_many_failed pm = (4 * length (proxies pm) < 5 * fcard (failed_proxies pm))"

definition get_proxy :: "proxy_manager \<Rightarrow> (exn + string option) \<times> proxy_manager" where
  "get_proxy pm =
     (if proxies pm = [] then (Inr None, pm)
      else
        let pm1 = (if too_many_failed pm
                   then load_proxies (pm\<lparr>failed_proxies := {||}\<rparr>) else pm)
        in case find_working (length (proxies pm1)) pm1 of
             (ScanRaised e, pm2) \<Rightarrow> (Inl e, pm2)
           | (Found proxy, pm2) \<Rightarrow> (Inr (Some proxy), pm2)
           | (AllFailed, pm2) \<Rightarrow>
               let pm3 = load_proxies (pm2\<lparr>failed_proxies := {||}\<rparr>)
               in (Inr (case proxies pm3 of [] \<Rightarrow> None | p # _ \<Rightarrow> Some p), pm3))"

definition mark_proxy_failed :: "string option \<Rightarrow> proxy_manager \<Rightarrow> proxy_manager" where
  \<comment> \<open>\<open>if proxy:\<close> is false for \<open>None\<close> and for the empty string\<close>
  "mark_proxy_failed proxy pm =
     (case proxy of
        None \<Rightarrow> pm
      | Some p \<Rightarrow> if p = [] then pm
                  else pm\<lparr>failed_proxies := finsert p (failed_proxies pm)\<rparr>)"

definition rotate_proxy :: "proxy_manager \<Rightarrow> proxy_manager" where
  "rotate_proxy pm =
     (if proxies pm = [] then pm
      else pm\<lparr>current_proxy_index := (current_proxy_index pm + 1) mod length (proxies pm)\<rparr>)"

definition script :: "'a list \<Rightarrow> 'a \<Rightarrow> nat \<Rightarrow> 'a" where
  \<comment> \<open>a world that answers with the listed outcomes in turn, then with \<open>d\<close> forever\<close>
  "script xs d k = (if k < length xs then xs ! k else d)"

definition keep_order :: "nat \<Rightarrow> string list \<Rightarrow> string list" where
  \<comment> \<open>the shuffle that happens to leave every list as it is\<close>
  "keep_order k xs = xs"

text \<open>
  Two proxies, both marked failed, the cursor on the second (one \<open>rotate_proxy\<close> and
  two \<open>mark_proxy_failed\<close> calls reach this state); the next download of the list
  holds a single proxy.
\<close>

definition stale_cursor_pool :: proxy_manager where
  "stale_cursor_pool =
     \<lparr>proxies = [''http://a'', ''http://b''], current_proxy_index = 1,
      failed_proxies = {|''http://a'', ''http://b''|},
      proxy_source = script [FetchText ''http://a\<newline>http://b'', FetchText ''http://c'']
                       FetchFailed,
      shuffle = keep_order, n_loads = 1\<rparr>"

definition new_proxy_manager ::
  "(nat \<Rightarrow> fetch_outcome) \<Rightarrow> (nat \<Rightarrow> string list \<Rightarrow> string list) \<Rightarrow> proxy_manager" where
  \<comment> \<open>\<open>ProxyManager.__init__\<close>\<close>
  "new_proxy_manager src shf =
     load_proxies \<lparr>proxies = [], current_proxy_index = 0, failed_proxies = {||},
                   proxy_source = src, shuffle = shf, n_loads = 0\<rparr>"

section \<open>JSON values and HTML elements\<close>

text \<open>
  The value \<open>response.json()\<close> returns. Numbers are integers; an object is the list
  of its bindings, the first binding of a key counting.
\<close>

datatype json =
    JNull
  | JBool bool
  | JNum int
  | JStr string
  | JArr "json list"
  | JObj "(string \<times> json) list"

text \<open>
  What BeautifulSoup hands to \<open>search_bing_images\<close>: of a \<open>script\<close> element its
  \<open>.string\<close> and the triples \<open>re.findall\<close> extracts from it with the
  \<open>murl\<close>/\<open>turl\<close>/\<open>t\<close> pattern; of an \<open>img\<close> element that has a \<open>src\<close> attribute,
  the attributes the code reads.
\<close>

record script_tag =
  script_string :: "string option"
  murl_matches :: "(string \<times> string \<times> string) list"

record img_tag =
  attr_src :: string
  attr_width :: "string option"
  attr_height :: "string option"
  attr_alt :: "string option"

record response =
  status_code :: int
  reason :: string
  resp_url :: string
  json_body :: "json option"
  script_tags :: "script_tag list"
  img_tags :: "img_tag list"

text \<open>
  What one \<open>session.get\<close>, \<open>session.post\<close> or \<open>session.request\<close> does: it returns
  a response, or raises \<open>ProxyError\<close>, another \<open>RequestException\<close>, or an exception
  outside the \<open>requests\<close> hierarchy. The string is \<open>str(e)\<close>.
\<close>

datatype http_outcome =
    Responded response
  | RaisedProxyError string
  | RaisedRequestException string
  | RaisedOther string

section \<open>ImageSearchAPI: request execution\<close>

text \<open>
  One entry per request sent: the rate-limit counter when the attempt started and the
  proxy in \<open>kwargs['proxies']\<close> when the request went out. The code keeps no such
  log; it is what the claims about proxy activation speak of.
\<close>

record sent_request =
  counter_before :: int
  via_proxy :: "string option"

datatype log_line = SearchingDDG string | SearchingBing string

text \<open>
  The fields of \<open>ImageSearchAPI\<close> the core uses, and the outside world:
  \<open>upstream k\<close> is the outcome of the \<open>k\<close>-th request the session sends. Of the
  program's prints, \<open>stdout\<close> keeps the first line of each extractor.
\<close>

record api =
  proxy_manager :: proxy_manager
  rate_limit_count :: int
  upstream :: "nat \<Rightarrow> http_outcome"
  n_requests :: nat
  sent :: "sent_request list"
  stdout :: "log_line list"

definition new_api ::
  "(nat \<Rightarrow> fetch_outcome) \<Rightarrow> (nat \<Rightarrow> string list \<Rightarrow> string list) \<Rightarrow> (nat \<Rightarrow> http_outcome) \<Rightarrow> api"
  where
  \<comment> \<open>\<open>ImageSearchAPI.__init__\<close>\<close>
  "new_api src shf up =
     \<lparr>proxy_manager = new_proxy_manager src shf, rate_limit_count = 0,
      upstream = up, n_requests = 0, sent = [], stdout = []\<rparr>"

definition truthy :: "string option \<Rightarrow> bool" where
  \<comment> \<open>\<open>if current_proxy:\<close>\<close>
  "truthy p = (case p of None \<Rightarrow> False | Some q \<Rightarrow> q \<noteq> [])"

definition with_pm :: "(proxy_manager \<Rightarrow> proxy_manager) \<Rightarrow> api \<Rightarrow> api" where
  "with_pm f s = s\<lparr>proxy_manager := f (proxy_manager s)\<rparr>"

fun digit_char :: "nat \<Rightarrow> char" where
  "digit_char n = ''0123456789'' ! (n mod 10)"

fun str_nat :: "nat \<Rightarrow> string" where
  "str_nat n = (if n < 10 then [digit_char n] else str_nat (n div 10) @ [digit_char n])"

declare str_nat.simps [simp del]

definition raise_for_status :: "response \<Rightarrow> string option" where
  \<comment> \<open>the message of the \<open>HTTPError\<close> it raises, if it raises\<close>
  "raise_for_status r =
     (if 400 \<le> status_code r \<and> status_code r < 500
      then Some (str_nat (nat (status_code r)) @ '' Client Error: '' @ reason r
                 @ '' for url: '' @ resp_url r)
      else if 500 \<le> status_code r \<and> status_code r < 600
      then Some (str_nat (nat (status_code r)) @ '' Server Error: '' @ reason r
                 @ '' for url: '' @ resp_url r)
      else None)"

text \<open>
  One pass through the body of \<open>for attempt in range(max_retries)\<close> either goes to the
  next attempt (\<open>continue\<close>) with the locals \<open>current_proxy\<close> and \<open>kwargs['proxies']\<close>,
  or leaves \<open>_make_request\<close> with a response or an exception. \<open>again\<close> is
  \<open>attempt < max_retries - 1\<close>.
\<close>

datatype attempt_result =
    Retry "string option" "string option" api
  | Finish "exn + response" api

definition select_proxy ::
  "string option \<Rightarrow> string option \<Rightarrow> api \<Rightarrow> (exn + string option \<times> string option) \<times> api" where
  \<comment> \<open>lines 148--155; an exception of \<open>get_proxy\<close> is caught by neither handler\<close>
  "select_proxy cur kw s =
     (if rate_limit_count s > 2 then
        (case get_proxy (proxy_manager s) of
           (Inl e, pm) \<Rightarrow> (Inl e, s\<lparr>proxy_manager := pm\<rparr>)
         | (Inr p, pm) \<Rightarrow> (Inr (p, if truthy p then p else kw), s\<lparr>proxy_manager := pm\<rparr>))
      else (Inr (cur, kw), s))"

definition mark_current :: "string option \<Rightarrow> api \<Rightarrow> api" where
  \<comment> \<open>\<open>if current_proxy: self.proxy_manager.mark_proxy_failed(current_proxy)\<close>\<close>
  "mark_current cur s = (if truthy cur then with_pm (mark_proxy_failed cur) s else s)"

definition rate_limit_message :: "string \<Rightarrow> bool" where
  "rate_limit_message msg = (contains ''429'' msg \<or> contains ''rate limit'' (lower msg))"

definition on_request_exception ::
  "bool \<Rightarrow> string option \<Rightarrow> string option \<Rightarrow> exn \<Rightarrow> string \<Rightarrow> api \<Rightarrow> attempt_result" where
  \<comment> \<open>\<open>except requests.exceptions.RequestException as e\<close>, lines 196--210\<close>
  "on_request_exception again cur kw e msg s =
     (if rate_limit_message msg then
        let s1 = mark_current cur (s\<lparr>rate_limit_count := rate_limit_count s + 1\<rparr>)
        in if again then Retry cur kw (with_pm rotate_proxy s1) else Finish (Inl e) s1
      else if again then Retry cur kw s else Finish (Inl e) s)"

definition on_proxy_error ::
  "bool \<Rightarrow> string option \<Rightarrow> string option \<Rightarrow> string \<Rightarrow> api \<Rightarrow> attempt_result" where
  \<comment> \<open>\<open>except requests.exceptions.ProxyError as e\<close>, lines 185--194\<close>
  "on_proxy_error again cur kw msg s =
     (let s1 = with_pm rotate_proxy (mark_current cur s)
      in if again then Retry cur kw s1 else Finish (Inl (ProxyError msg)) s1)"

definition after_rate_check ::
  "bool \<Rightarrow> string option \<Rightarrow> string option \<Rightarrow> response \<Rightarrow> api \<Rightarrow> attempt_result" where
  \<comment> \<open>lines 178--183\<close>
  "after_rate_check again cur kw r s =
     (let s1 = (if status_code r = 200
                then s\<lparr>rate_limit_count := max 0 (rate_limit_count s - 1)\<rparr> else s)
      in case raise_for_status r of
           None \<Rightarrow> Finish (Inr r) s1
         | Some msg \<Rightarrow> on_request_exception again cur kw (HTTPError msg) msg s1)"

definition on_response ::
  "bool \<Rightarrow> string option \<Rightarrow> string option \<Rightarrow> response \<Rightarrow> api \<Rightarrow> attempt_result" where
  \<comment> \<open>lines 165--183\<close>
  "on_response again cur kw r s =
     (if status_code r \<in> set [429, 403, 503] then
        let s1 = mark_current cur (s\<lparr>rate_limit_count := rate_limit_count s + 1\<rparr>)
        in if again then Retry cur kw (with_pm rotate_proxy s1)
           else after_rate_check again cur kw r s1
      else after_rate_check again cur kw r s)"

definition attempt ::
  "bool \<Rightarrow> string option \<Rightarrow> string option \<Rightarrow> api \<Rightarrow> attempt_result" where
  "attempt again cur kw s =
     (case select_proxy cur kw s of
        (Inl e, s1) \<Rightarrow> Finish (Inl e) s1
      | (Inr (cur1, kw1), s1) \<Rightarrow>
          let s2 = s1\<lparr>n_requests := Suc (n_requests s1),
                      sent := sent s1 @ [\<lparr>counter_before = rate_limit_count s,
                                           via_proxy = kw1\<rparr>]\<rparr>
          in case upstream s1 (n_requests s1) of
               Responded r \<Rightarrow> on_response again cur1 kw1 r s2
             | RaisedProxyError msg \<Rightarrow> on_proxy_error again cur1 kw1 msg s2
             | RaisedRequestException msg \<Rightarrow>
                 on_request_exception again cur1 kw1 (RequestException msg) msg s2
             | RaisedOther msg \<Rightarrow> Finish (Inl (OtherError msg)) s2)"

text \<open>
  The loop over the attempts; the first argument is the number of attempts left.
  With none left the code reaches its last line, \<open>raise Exception(...)\<close>.
\<close>

fun request_loop ::
  "nat \<Rightarrow> string option \<Rightarrow> string option \<Rightarrow> api \<Rightarrow> (exn + response) \<times> api" where
  "request_loop 0 cur kw s = (Inl RetriesExhausted, s)"
| "request_loop (Suc left) cur kw s =
     (case attempt (left \<noteq> 0) cur kw s of
        Retry cur1 kw1 s1 \<Rightarrow> request_loop left cur1 kw1 s1
      | Finish r s1 \<Rightarrow> (r, s1))"

definition make_request :: "api \<Rightarrow> (exn + response) \<times> api" where
  \<comment> \<open>\<open>_make_request\<close>: \<open>max_retries = 3\<close>, \<open>current_proxy = None\<close>, no proxy in \<open>kwargs\<close>\<close>
  "make_request s = request_loop 3 None None s"

fun run_requests :: "nat \<Rightarrow> api \<Rightarrow> api" where
  \<comment> \<open>\<open>n\<close> calls of \<open>_make_request\<close> in a row, whatever each returns or raises\<close>
  "run_requests 0 s = s"
| "run_requests (Suc n) s = run_requests n (snd (make_request s))"

section \<open>URL normalization\<close>

definition normalize_url :: "string \<Rightarrow> string" where
  \<comment> \<open>\<open>_normalize_url\<close> on a \<open>str\<close>\<close>
  "normalize_url url =
     (if url = [] then []
      else if startswith url ''//'' then ''https:'' @ url
      else if \<not> (startswith url ''http://'' \<or> startswith url ''https://'')
      then ''https://'' @ url
      else url)"

section \<open>ImageResult and the Python operations on JSON values\<close>

record image_result =
  title :: string
  image :: string
  thumbnail :: string
  url :: string
  height :: int
  width :: int
  source :: string

definition and_then :: "exn + 'a \<Rightarrow> ('a \<Rightarrow> exn + 'b) \<Rightarrow> exn + 'b" where
  \<comment> \<open>evaluate the next expression unless the last one raised\<close>
  "and_then x f = (case x of Inl e \<Rightarrow> Inl e | Inr v \<Rightarrow> f v)"

definition py_get :: "json \<Rightarrow> string \<Rightarrow> json \<Rightarrow> exn + json" where
  \<comment> \<open>\<open>row.get(key, default)\<close>: only a dict has \<open>get\<close>\<close>
  "py_get row key dflt =
     (case row of
        JObj kvs \<Rightarrow> Inr (case map_of kvs key of None \<Rightarrow> dflt | Some v \<Rightarrow> v)
      | _ \<Rightarrow> Inl AttributeError)"

definition truthy_json :: "json \<Rightarrow> bool" where
  "truthy_json v =
     (case v of JNull \<Rightarrow> False | JBool b \<Rightarrow> b | JNum n \<Rightarrow> n \<noteq> 0 | JStr s \<Rightarrow> s \<noteq> []
      | JArr xs \<Rightarrow> xs \<noteq> [] | JObj kvs \<Rightarrow> kvs \<noteq> [])"

definition hashable :: "json \<Rightarrow> bool" where
  \<comment> \<open>a list or a dict cannot be looked up in a set: \<open>TypeError\<close>\<close>
  "hashable v = (case v of JArr xs \<Rightarrow> False | JObj kvs \<Rightarrow> False | _ \<Rightarrow> True)"

definition hash_key :: "json \<Rightarrow> json" where
  \<comment> \<open>a Python \<open>set\<close> compares its elements with \<open>==\<close>, under which \<open>True\<close> is \<open>1\<close>
      and \<open>False\<close> is \<open>0\<close>: the set is kept as the set of these representatives\<close>
  "hash_key v = (case v of JBool b \<Rightarrow> JNum (if b then 1 else 0) | _ \<Rightarrow> v)"

definition normalize_json :: "json \<Rightarrow> exn + string" where
  \<comment> \<open>\<open>_normalize_url\<close> on whatever the row holds: \<open>not url\<close> first, then
      \<open>url.startswith\<close>, which only a \<open>str\<close> has\<close>
  "normalize_json v =
     (if \<not> truthy_json v then Inr []
      else case v of JStr s \<Rightarrow> Inr (normalize_url s) | _ \<Rightarrow> Inl AttributeError)"

definition valid_int_literal :: "string \<Rightarrow> bool" where
  \<comment> \<open>digits, single underscores between them\<close>
  "valid_int_literal b =
     (b \<noteq> [] \<and> is_digit (hd b) \<and> is_digit (last b)
      \<and> list_all (\<lambda>c. is_digit c \<or> c = CHR ''_'') b \<and> \<not> contains ''__'' b)"

definition is_c_space :: "char \<Rightarrow> bool" where
  \<comment> \<open>the characters \<open>int\<close> skips around the literal of an ASCII \<open>str\<close>: space,
      \<open>\t\<close>, \<open>\n\<close>, \<open>\v\<close>, \<open>\f\<close>, \<open>\r\<close>; unlike \<open>str.strip\<close> not \<open>0x1C\<close>..\<open>0x1F\<close>\<close>
  "is_c_space c = (c \<in> set [CHR 0x09, CHR 0x0A, CHR 0x0B, CHR 0x0C, CHR 0x0D, CHR '' ''])"

definition int_of_str :: "string \<Rightarrow> exn + int" where
  \<comment> \<open>\<open>int(s)\<close> for a \<open>str\<close>: surrounding whitespace and a sign are allowed, and a
      literal of more than 4300 digits is refused (the default of
      \<open>sys.set_int_max_str_digits\<close>)\<close>
  "int_of_str s =
     (let t = rev (dropWhile is_c_space (rev (dropWhile is_c_space s)));
          neg = (t \<noteq> [] \<and> hd t = CHR ''-'');
          body = (if t \<noteq> [] \<and> (hd t = CHR ''-'' \<or> hd t = CHR ''+'') then tl t else t)
      in if valid_int_literal body \<and> length (filter is_digit body) \<le> 4300
         then Inr ((if neg then - 1 else 1) * int_of_digits (filter is_digit body))
         else Inl ValueError)"

definition py_int :: "json \<Rightarrow> exn + int" where
  \<comment> \<open>\<open>int(v)\<close>\<close>
  "py_int v =
     (case v of
        JNum n \<Rightarrow> Inr n
      | JBool b \<Rightarrow> Inr (if b then 1 else 0)
      | JStr s \<Rightarrow> int_of_str s
      | _ \<Rightarrow> Inl TypeError)"

definition str_field :: "json \<Rightarrow> exn + string" where
  \<comment> \<open>a field declared \<open>str\<close> in the pydantic model takes a string only\<close>
  "str_field v = (case v of JStr s \<Rightarrow> Inr s | _ \<Rightarrow> Inl ValidationError)"

section \<open>PrimaryExtractor: search_duckduckgo_images\<close>

definition build_result :: "json \<Rightarrow> json \<Rightarrow> exn + image_result" where
  \<comment> \<open>the \<open>ImageResult(...)\<close> of lines 308--316, for a row and its \<open>image_url\<close>\<close>
  "build_result row image_url =
     and_then (py_get row ''title'' (JStr [])) (\<lambda>t.
     and_then (normalize_json image_url) (\<lambda>img.
     and_then (and_then (py_get row ''thumbnail'' (JStr [])) normalize_json) (\<lambda>thumb.
     and_then (and_then (py_get row ''url'' (JStr [])) normalize_json) (\<lambda>u.
     and_then (and_then (py_get row ''height'' (JNum 0)) py_int) (\<lambda>h.
     and_then (and_then (py_get row ''width'' (JNum 0)) py_int) (\<lambda>w.
     and_then (py_get row ''source'' (JStr ''DuckDuckGo'')) (\<lambda>src.
     and_then (str_field t) (\<lambda>t'.
     and_then (str_field src) (\<lambda>src'.
       Inr \<lparr>title = t', image = img, thumbnail = thumb, url = u,
            height = h, width = w, source = src'\<rparr>)))))))))"

text \<open>
  \<open>for row in page_data\<close>, lines 301--317, with the lists \<open>results\<close> and \<open>cache\<close> it
  updates in place. An exception leaves the loop; what was appended before stays.
  \<open>cache\<close> holds the \<open>hash_key\<close> of every value added to the Python set.
\<close>

fun rows_loop ::
  "int \<Rightarrow> json list \<Rightarrow> image_result list \<Rightarrow> json set
     \<Rightarrow> exn option \<times> image_result list \<times> json set" where
  "rows_loop max_results [] results cache = (None, results, cache)"
| "rows_loop max_results (row # rest) results cache =
     (if int (length results) \<ge> max_results then (None, results, cache)
      else case py_get row ''image'' JNull of
             Inl e \<Rightarrow> (Some e, results, cache)
           | Inr image_url \<Rightarrow>
               if \<not> truthy_json image_url then rows_loop max_results rest results cache
               else if \<not> hashable image_url then (Some TypeError, results, cache)
               else if hash_key image_url \<in> cache then rows_loop max_results rest results cache
               else case build_result row image_url of
                      Inl e \<Rightarrow> (Some e, results, insert (hash_key image_url) cache)
                    | Inr r \<Rightarrow>
                        rows_loop max_results rest (results @ [r])
                          (insert (hash_key image_url) cache))"

definition page_rows :: "response \<Rightarrow> exn + json list" where
  \<comment> \<open>\<open>response.json().get("results", [])\<close> and what \<open>for row in page_data\<close> iterates
      over: the elements of a list, the keys of a dict, the characters of a string\<close>
  "page_rows resp =
     (case json_body resp of
        None \<Rightarrow> Inl JSONDecodeError
      | Some data \<Rightarrow>
          and_then (py_get data ''results'' (JArr [])) (\<lambda>page_data.
            case page_data of
              JArr rows \<Rightarrow> Inr rows
            | JObj kvs \<Rightarrow> Inr (map (\<lambda>kv. JStr (fst kv)) kvs)
            | JStr s \<Rightarrow> Inr (map (\<lambda>c. JStr [c]) s)
            | _ \<Rightarrow> Inl TypeError))"

definition fetch_page ::
  "int \<Rightarrow> image_result list \<Rightarrow> json set \<Rightarrow> api \<Rightarrow> image_result list \<times> json set \<times> api" where
  \<comment> \<open>the inner \<open>try\<close> of lines 290--323: any exception skips the rest of the page\<close>
  "fetch_page max_results results cache s =
     (case make_request s of
        (Inl e, s1) \<Rightarrow> (results, cache, s1)
      | (Inr resp, s1) \<Rightarrow>
          (case page_rows resp of
             Inl e \<Rightarrow> (results, cache, s1)
           | Inr rows \<Rightarrow>
               (case rows_loop max_results rows results cache of
                  (e, results1, cache1) \<Rightarrow> (results1, cache1, s1))))"

fun pages_loop ::
  "nat list \<Rightarrow> int \<Rightarrow> image_result list \<Rightarrow> json set \<Rightarrow> api \<Rightarrow> image_result list \<times> api" where
  \<comment> \<open>\<open>for page in [0, 100]\<close>\<close>
  "pages_loop [] max_results results cache s = (results, s)"
| "pages_loop (page # rest) max_results results cache s =
     (if int (length results) \<ge> max_results then (results, s)
      else case fetch_page max_results results cache s of
             (results1, cache1, s1) \<Rightarrow> pages_loop rest max_results results1 cache1 s1)"

definition get_vqd :: "api \<Rightarrow> api" where
  \<comment> \<open>\<open>_get_vqd\<close>: one \<open>_make_request\<close>, every exception caught. The token it
      returns only travels in the parameters of the next requests, which the
      outside world of this model may answer in any way, so it is not kept.\<close>
  "get_vqd s = snd (make_request s)"

definition ddg_body :: "string \<Rightarrow> int \<Rightarrow> api \<Rightarrow> (exn + image_result list) \<times> api" where
  \<comment> \<open>the body of the outer \<open>try\<close>, lines 269--326\<close>
  "ddg_body keywords max_results s =
     (case pages_loop [0, 100] max_results [] {} (get_vqd s) of
        (results, s1) \<Rightarrow> (Inr results, s1))"

definition search_duckduckgo_images ::
  "string \<Rightarrow> int \<Rightarrow> api \<Rightarrow> (exn + image_result list) \<times> api" where
  "search_duckduckgo_images keywords max_results s =
     (case ddg_body keywords max_results (s\<lparr>stdout := stdout s @ [SearchingDDG keywords]\<rparr>) of
        (Inl e, s1) \<Rightarrow> (Inr [], s1)
      | (Inr results, s1) \<Rightarrow> (Inr results, s1))"

section \<open>FallbackExtractor: search_bing_images\<close>

definition search_url :: string where
  "search_url = ''https://www.bing.com/images/search''"

definition py_slice_to :: "int \<Rightarrow> 'a list \<Rightarrow> 'a list" where
  \<comment> \<open>\<open>xs[:n]\<close>; a negative \<open>n\<close> counts from the end\<close>
  "py_slice_to n xs =
     (if 0 \<le> n then take (nat n) xs else take (nat (int (length xs) + n)) xs)"

function replace_all :: "string \<Rightarrow> string \<Rightarrow> string \<Rightarrow> string" where
  \<comment> \<open>\<open>s.replace(old, new)\<close> for a non-empty \<open>old\<close>\<close>
  "replace_all old new [] = []"
| "replace_all old new (c # cs) =
     (if old \<noteq> [] \<and> prefix old (c # cs)
      then new @ replace_all old new (drop (length old) (c # cs))
      else c # replace_all old new cs)"
  by pat_completeness auto
termination
  by (relation "measure (\<lambda>(old, new, s). length s)") auto

definition unescape_amp :: "string \<Rightarrow> string" where
  \<comment> \<open>\<open>.replace('\\u0026', '&')\<close>: the six characters backslash, u, 0, 0, 2, 6\<close>
  "unescape_amp s = replace_all (CHR 0x5C # ''u0026'') ''&'' s"

definition match_result :: "string \<Rightarrow> string \<times> string \<times> string \<Rightarrow> image_result" where
  \<comment> \<open>lines 380--392\<close>
  "match_result keywords m =
     (case m of (murl, turl, t) \<Rightarrow>
        \<lparr>title = (if t \<noteq> [] then t else keywords @ '' image''),
         image = normalize_url (unescape_amp murl),
         thumbnail = normalize_url (unescape_amp turl),
         url = search_url, height = 0, width = 0, source = ''Bing''\<rparr>)"

fun match_loop ::
  "string \<Rightarrow> int \<Rightarrow> (string \<times> string \<times> string) list \<Rightarrow> image_result list
     \<Rightarrow> image_result list" where
  \<comment> \<open>\<open>for match in matches[:max_results]\<close>\<close>
  "match_loop keywords max_results [] results = results"
| "match_loop keywords max_results (m # rest) results =
     (if int (length results) \<ge> max_results then results
      else match_loop keywords max_results rest (results @ [match_result keywords m]))"

definition has_marker :: "script_tag \<Rightarrow> bool" where
  \<comment> \<open>\<open>script.string and 'mediaurl' in script.string.lower()\<close>\<close>
  "has_marker sc =
     (case script_string sc of
        None \<Rightarrow> False
      | Some str \<Rightarrow> str \<noteq> [] \<and> contains ''mediaurl'' (lower str))"

fun script_loop ::
  "string \<Rightarrow> int \<Rightarrow> script_tag list \<Rightarrow> image_result list \<Rightarrow> image_result list" where
  \<comment> \<open>Method 1, \<open>for script in script_tags\<close>\<close>
  "script_loop keywords max_results [] results = results"
| "script_loop keywords max_results (sc # rest) results =
     (if has_marker sc then
        let results1 = match_loop keywords max_results
                         (py_slice_to max_results (murl_matches sc)) results
        in if results1 \<noteq> [] then results1
           else script_loop keywords max_results rest results1
      else script_loop keywords max_results rest results)"

definition blacklisted :: "string \<Rightarrow> bool" where
  "blacklisted src =
     list_ex (\<lambda>x. contains x (lower src)) [''icon'', ''logo'', ''button'', ''pixel'', ''blank'']"

definition declared_width :: "img_tag \<Rightarrow> string" where
  \<comment> \<open>\<open>img.get('width', '0')\<close>\<close>
  "declared_width img = (case attr_width img of None \<Rightarrow> ''0'' | Some w \<Rightarrow> w)"

definition declared_height :: "img_tag \<Rightarrow> string" where
  \<comment> \<open>\<open>img.get('height', '0')\<close>\<close>
  "declared_height img = (case attr_height img of None \<Rightarrow> ''0'' | Some h \<Rightarrow> h)"

definition too_small :: "img_tag \<Rightarrow> bool" where
  \<comment> \<open>lines 422--424\<close>
  "too_small img =
     (isdigit (declared_width img) \<and> isdigit (declared_height img)
      \<and> (int_of_digits (declared_width img) < 100 \<or> int_of_digits (declared_height img) < 100))"

definition img_result :: "string \<Rightarrow> img_tag \<Rightarrow> image_result" where
  \<comment> \<open>lines 426--436\<close>
  "img_result keywords img =
     \<lparr>title = (case attr_alt img of None \<Rightarrow> keywords @ '' image'' | Some a \<Rightarrow> a),
      image = normalize_url (attr_src img),
      thumbnail = normalize_url (attr_src img),
      url = search_url,
      height = (if isdigit (declared_height img) then int_of_digits (declared_height img) else 0),
      width = (if isdigit (declared_width img) then int_of_digits (declared_width img) else 0),
      source = ''Bing (fallback)''\<rparr>"

definition skipped :: "img_tag \<Rightarrow> bool" where
  \<comment> \<open>the three \<open>continue\<close>s of lines 411--424\<close>
  "skipped img =
     (attr_src img = [] \<or> startswith (attr_src img) ''data:''
      \<or> blacklisted (attr_src img) \<or> too_small img)"

fun img_loop :: "string \<Rightarrow> int \<Rightarrow> img_tag list \<Rightarrow> image_result list \<Rightarrow> image_result list" where
  \<comment> \<open>Method 2, \<open>for img in img_tags[:max_results * 2]\<close>\<close>
  "img_loop keywords max_results [] results = results"
| "img_loop keywords max_results (img # rest) results =
     (if int (length results) \<ge> max_results then results
      else if skipped img then img_loop keywords max_results rest results
      else img_loop keywords max_results rest (results @ [img_result keywords img]))"

definition method2 :: "string \<Rightarrow> int \<Rightarrow> img_tag list \<Rightarrow> image_result list" where
  "method2 keywords max_results imgs =
     img_loop keywords max_results (py_slice_to (max_results * 2) imgs) []"

definition bing_body :: "string \<Rightarrow> int \<Rightarrow> api \<Rightarrow> (exn + image_result list) \<times> api" where
  \<comment> \<open>the body of the \<open>try\<close>, lines 335--440\<close>
  "bing_body keywords max_results s =
     (case make_request s of
        (Inl e, s1) \<Rightarrow> (Inl e, s1)
      | (Inr resp, s1) \<Rightarrow>
          let results = script_loop keywords max_results (script_tags resp) []
          in (Inr (if results = [] then method2 keywords max_results (img_tags resp)
                   else results), s1))"

definition search_bing_images ::
  "string \<Rightarrow> int \<Rightarrow> api \<Rightarrow> (exn + image_result list) \<times> api" where
  "search_bing_images keywords max_results s =
     (case bing_body keywords max_results (s\<lparr>stdout := stdout s @ [SearchingBing keywords]\<rparr>) of
        (Inl e, s1) \<Rightarrow> (Inr [], s1)
      | (Inr results, s1) \<Rightarrow> (Inr results, s1))"

section \<open>SearchOrchestrator: search_images\<close>

definition search_images ::
  "string \<Rightarrow> int \<Rightarrow> api \<Rightarrow> (exn + image_result list \<times> string) \<times> api" where
  "search_images keywords max_results s =
     (case search_duckduckgo_images keywords max_results s of
        (Inl e, s1) \<Rightarrow> (Inl e, s1)
      | (Inr results, s1) \<Rightarrow>
          if results \<noteq> [] then (Inr (results, ''DuckDuckGo''), s1)
          else (case search_bing_images keywords max_results s1 of
                  (Inl e, s2) \<Rightarrow> (Inl e, s2)
                | (Inr results2, s2) \<Rightarrow>
                    if results2 \<noteq> [] then (Inr (results2, ''Bing''), s2)
                    else (Inr ([], ''None''), s2)))"

section \<open>Predicates the theorems speak of\<close>

definition gate_respected :: "sent_request \<Rightarrow> bool" where
  \<comment> \<open>the counter was not negative when the attempt started, and the request went
      through a proxy only if the counter exceeded 2 then\<close>
  "gate_respected e =
     (0 \<le> counter_before e \<and> (via_proxy e \<noteq> None \<longrightarrow> 2 < counter_before e))"

definition counter_inv :: "string option \<Rightarrow> api \<Rightarrow> bool" where
  \<comment> \<open>the invariant of the attempts loop; \<open>kw\<close> is \<open>kwargs['proxies']\<close>\<close>
  "counter_inv kw s =
     (0 \<le> rate_limit_count s \<and> list_all gate_respected (sent s)
      \<and> (kw \<noteq> None \<longrightarrow> 2 < rate_limit_count s))"

text \<open>
  The \<open>img\<close> elements Method 2 builds a result from, given how many results the list
  already holds: the loop of \<open>img_loop\<close> without the results it appends.
\<close>

fun kept_imgs :: "int \<Rightarrow> img_tag list \<Rightarrow> nat \<Rightarrow> img_tag list" where
  "kept_imgs max_results [] n = []"
| "kept_imgs max_results (img # rest) n =
     (if int n \<ge> max_results then []
      else if skipped img then kept_imgs max_results rest n
      else img # kept_imgs max_results rest (Suc n))"


text \<open>
  The forms a URL can have after \<open>_normalize_url\<close>: empty, or starting with
  \<open>http://\<close> or \<open>https://\<close>.
\<close>

definition web_url :: "string \<Rightarrow> bool" where
  "web_url u = (u = [] \<or> startswith u ''http://'' \<or> startswith u ''https://'')"

definition urls_ok :: "image_result \<Rightarrow> bool" where
  "urls_ok r = (web_url (image r) \<and> web_url (thumbnail r) \<and> web_url (url r))"


text \<open>
  An outside world in which no request is ever answered by a response, and what the
  request execution leaves untouched: the printed lines and the outside world.
\<close>

definition never_answers :: "(nat \<Rightarrow> http_outcome) \<Rightarrow> bool" where
  "never_answers up = (\<forall>k. case up k of Responded r \<Rightarrow> False | _ \<Rightarrow> True)"

definition frame :: "api \<Rightarrow> api \<Rightarrow> bool" where
  "frame s s' = (stdout s' = stdout s \<and> upstream s' = upstream s)"



text \<open>
  The primary provider's pages as \<open>search_duckduckgo_images\<close> meets them. \<open>page_of\<close> is
  the request of one page and \<open>response.json().get("results", [])\<close>, with \<open>None\<close> when
  either raises; \<open>ddg_pages\<close> are the answers to the request for page 0 and to the one
  after it, and \<open>offered\<close> their entries in order. Of an entry, \<open>raw_image\<close> is
  \<open>row.get("image")\<close> and \<open>built\<close> the \<open>ImageResult(...)\<close> made from it. An entry is
  \<open>well_formed\<close> when its image URL is a non-empty string and \<open>ImageResult(...)\<close> raises
  nothing on it. \<open>image_urls\<close> keeps of an outcome the image URLs and the engine.
\<close>

definition raw_image :: "json \<Rightarrow> json" where
  "raw_image row = (case py_get row ''image'' JNull of Inl e \<Rightarrow> JNull | Inr u \<Rightarrow> u)"

definition built :: "json \<Rightarrow> exn + image_result" where
  "built row = build_result row (raw_image row)"

definition page_of :: "api \<Rightarrow> json list option \<times> api" where
  "page_of s =
     (case make_request s of
        (Inl e, s1) \<Rightarrow> (None, s1)
      | (Inr resp, s1) \<Rightarrow>
          (case page_rows resp of Inl e \<Rightarrow> (None, s1) | Inr rows \<Rightarrow> (Some rows, s1)))"

definition entries :: "json list option \<Rightarrow> json list" where
  "entries p = (case p of None \<Rightarrow> [] | Some rows \<Rightarrow> rows)"

definition ddg_pages :: "string \<Rightarrow> api \<Rightarrow> json list option \<times> json list option" where
  "ddg_pages kw s =
     (case page_of (get_vqd (s\<lparr>stdout := stdout s @ [SearchingDDG kw]\<rparr>)) of
        (p1, s1) \<Rightarrow> (p1, fst (page_of s1)))"

definition offered :: "string \<Rightarrow> api \<Rightarrow> json list" where
  "offered kw s = (case ddg_pages kw s of (p1, p2) \<Rightarrow> entries p1 @ entries p2)"

definition image_str :: "json \<Rightarrow> string" where
  "image_str row = (case raw_image row of JStr u \<Rightarrow> u | _ \<Rightarrow> [])"

definition well_formed :: "json \<Rightarrow> bool" where
  "well_formed row =
     (case raw_image row of
        JStr u \<Rightarrow> u \<noteq> [] \<and> (case built row of Inl e \<Rightarrow> False | Inr r \<Rightarrow> True)
      | _ \<Rightarrow> False)"

definition image_urls :: "(exn + image_result list \<times> string) \<Rightarrow> exn + string list \<times> string" where
  "image_urls out = map_sum id (map_prod (map image) id) out"


text \<open>
  The state once an attempt has sent its request (\<open>s\<close> is the state at the start of
  the attempt, \<open>s1\<close> the one after the choice of the proxy), and the state in which
  the handler of lines 196--210 leaves the executor when \<open>raise_for_status\<close> has raised
  an \<open>HTTPError\<close> with message \<open>msg\<close>: a message that mentions \<open>429\<close> or a rate limit
  counts as a rate limit.
\<close>

definition after_send :: "api \<Rightarrow> api \<Rightarrow> string option \<Rightarrow> api" where
  "after_send s s1 kw1 =
     s1\<lparr>n_requests := Suc (n_requests s1),
        sent := sent s1 @ [\<lparr>counter_before = rate_limit_count s, via_proxy = kw1\<rparr>]\<rparr>"

definition http_error_state :: "bool \<Rightarrow> string option \<Rightarrow> string \<Rightarrow> api \<Rightarrow> api" where
  "http_error_state again cur msg s =
     (if rate_limit_message msg then
        let s1 = mark_current cur (s\<lparr>rate_limit_count := rate_limit_count s + 1\<rparr>)
        in if again then with_pm rotate_proxy s1 else s1
      else s)"


text \<open>
  The entries of a page as the specification speaks of them. An entry is an object
  whose image URL is a string or is missing; it \<open>builds\<close> when \<open>ImageResult(...)\<close>
  raises nothing on it. \<open>kept_entries seen rows\<close> follows the words of the
  specification: the entries in the provider's order, leaving out each one whose image
  URL is empty or was already seen, \<open>seen\<close> being the image URLs met so far, as the
  provider sent them.
\<close>

definition is_entry :: "json \<Rightarrow> bool" where
  "is_entry row =
     (case row of
        JObj kvs \<Rightarrow> (case raw_image row of JNull \<Rightarrow> True | JStr u \<Rightarrow> True | _ \<Rightarrow> False)
      | _ \<Rightarrow> False)"

definition builds :: "json \<Rightarrow> bool" where
  "builds row = (case built row of Inl e \<Rightarrow> False | Inr r \<Rightarrow> True)"

fun kept_entries :: "string set \<Rightarrow> json list \<Rightarrow> json list" where
  "kept_entries seen [] = []"
| "kept_entries seen (row # rest) =
     (if image_str row = [] \<or> image_str row \<in> seen then kept_entries seen rest
      else row # kept_entries (insert (image_str row) seen) rest)"

section \<open>Concrete pools, worlds and pages\<close>

text \<open>
  Six proxies of which five are marked failed: more than 80 percent, but not all.
  The next download of the list returns the same six lines.
\<close>

definition eighty_pool :: proxy_manager where
  "eighty_pool =
     \<lparr>proxies = [''http://a'', ''http://b'', ''http://c'', ''http://d'', ''http://e'',
                 ''http://f''],
      current_proxy_index = 0,
      failed_proxies = {|''http://a'', ''http://b'', ''http://c'', ''http://d'', ''http://e''|},
      proxy_source = script [FetchFailed,
         FetchText ''http://a\<newline>http://b\<newline>http://c\<newline>http://d\<newline>http://e\<newline>http://f'']
                       FetchFailed,
      shuffle = keep_order, n_loads = 1\<rparr>"

text \<open>
  A world whose first three answers are status 429 and whose fourth is status 200;
  the proxy list holds two endpoints.
\<close>

definition plain_response :: "int \<Rightarrow> string \<Rightarrow> response" where
  "plain_response code phrase =
     \<lparr>status_code = code, reason = phrase, resp_url = ''https://duckduckgo.com/'',
      json_body = None, script_tags = [], img_tags = []\<rparr>"

definition two_proxies :: "nat \<Rightarrow> fetch_outcome" where
  "two_proxies = script [FetchText ''http://p1\<newline>http://p2''] FetchFailed"

definition throttled_world :: "nat \<Rightarrow> http_outcome" where
  "throttled_world =
     script [Responded (plain_response 429 ''Too Many Requests''),
             Responded (plain_response 429 ''Too Many Requests''),
             Responded (plain_response 429 ''Too Many Requests''),
             Responded (plain_response 200 ''OK'')]
       (RaisedRequestException ''connection refused'')"

text \<open>
  Worlds for the status handling of \<open>_make_request\<close>: a 429 followed by a 204; a 404
  followed by a 200; and the world whose first answer is a given response.
\<close>

definition no_content_world :: "nat \<Rightarrow> http_outcome" where
  "no_content_world =
     script [Responded (plain_response 429 ''Too Many Requests''),
             Responded (plain_response 204 ''No Content'')]
       (RaisedRequestException ''connection refused'')"

definition not_found_world :: "nat \<Rightarrow> http_outcome" where
  "not_found_world =
     script [Responded (plain_response 404 ''Not Found''),
             Responded (plain_response 200 ''OK'')]
       (RaisedRequestException ''connection refused'')"

definition answer_once :: "response \<Rightarrow> nat \<Rightarrow> http_outcome" where
  "answer_once r = script [Responded r] (RaisedRequestException ''connection refused'')"

text \<open>
  Seven \<open>img\<close> elements: a data URI, a logo, one 50 pixels wide, one with no declared
  dimensions, a 640 by 480 picture, one with no width and the height \<open>auto\<close>, and a
  seventh picture.
\<close>

definition sample_imgs :: "img_tag list" where
  "sample_imgs =
     [\<lparr>attr_src = ''data:image/png;base64,AAAA'', attr_width = Some ''300'',
       attr_height = Some ''300'', attr_alt = None\<rparr>,
      \<lparr>attr_src = ''//cdn.example/site-logo.png'', attr_width = Some ''300'',
       attr_height = Some ''300'', attr_alt = None\<rparr>,
      \<lparr>attr_src = ''//cdn.example/thumb.jpg'', attr_width = Some ''50'',
       attr_height = Some ''300'', attr_alt = None\<rparr>,
      \<lparr>attr_src = ''//cdn.example/nodims.jpg'', attr_width = None,
       attr_height = None, attr_alt = Some ''no dimensions''\<rparr>,
      \<lparr>attr_src = ''//cdn.example/cat.jpg'', attr_width = Some ''640'',
       attr_height = Some ''480'', attr_alt = Some ''a cat''\<rparr>,
      \<lparr>attr_src = ''cdn.example/auto.jpg'', attr_width = None,
       attr_height = Some ''auto'', attr_alt = None\<rparr>,
      \<lparr>attr_src = ''//cdn.example/late.jpg'', attr_width = Some ''640'',
       attr_height = Some ''480'', attr_alt = None\<rparr>]"



text \<open>
  Responses that carry a page of the primary provider (a JSON object with the rows
  under \<open>results\<close>) or of the secondary provider (its \<open>img\<close> elements, no script),
  and a world where the primary provider's first page holds one row whose image URL
  starts with \<open>http://\<close> and which has neither a thumbnail nor a page URL.
\<close>

definition json_page :: "json list \<Rightarrow> response" where
  "json_page rows =
     \<lparr>status_code = 200, reason = ''OK'', resp_url = ''https://duckduckgo.com/i.js'',
      json_body = Some (JObj [(''results'', JArr rows)]), script_tags = [], img_tags = []\<rparr>"

definition img_page :: "img_tag list \<Rightarrow> response" where
  "img_page imgs =
     \<lparr>status_code = 200, reason = ''OK'', resp_url = ''https://www.bing.com/images/search'',
      json_body = None, script_tags = [], img_tags = imgs\<rparr>"

definition http_page_world :: "nat \<Rightarrow> http_outcome" where
  "http_page_world =
     script [Responded (plain_response 200 ''OK''),
             Responded (json_page [JObj [(''image'', JStr ''http://x/y.jpg''),
                                         (''title'', JStr ''a cat'')]]),
             Responded (json_page [])]
       (RaisedRequestException ''connection refused'')"



text \<open>
  A world in which every request fails, and one in which the three requests of the
  primary extractor fail and the secondary provider's page holds \<open>sample_imgs\<close>.
\<close>

definition dead_world :: "nat \<Rightarrow> http_outcome" where
  "dead_world = script [] (RaisedRequestException ''connection refused'')"

definition fallback_world :: "nat \<Rightarrow> http_outcome" where
  "fallback_world =
     script [RaisedOther ''boom'', RaisedOther ''boom'', RaisedOther ''boom'',
             Responded (img_page sample_imgs)]
       (RaisedRequestException ''connection refused'')"



text \<open>
  Two pages of the primary provider, of six and of four entries, after the answer to
  the token request. In \<open>six_rows\<close> and \<open>four_rows\<close> the ten image URLs stay different
  after \<open>_normalize_url\<close>; in \<open>six_rows_same_picture\<close> the first three are different
  strings that \<open>_normalize_url\<close> maps to the same URL.
\<close>

definition sample_row :: "string \<Rightarrow> json" where
  "sample_row u =
     JObj [(''title'', JStr ''a cat''), (''image'', JStr u), (''height'', JNum 480),
           (''width'', JStr ''640'')]"

definition two_page_world :: "json list \<Rightarrow> json list \<Rightarrow> nat \<Rightarrow> http_outcome" where
  "two_page_world rows1 rows2 =
     script [Responded (plain_response 200 ''OK''), Responded (json_page rows1),
             Responded (json_page rows2)]
       (RaisedRequestException ''connection refused'')"

definition six_rows :: "json list" where
  "six_rows = map sample_row [''//x/1.jpg'', ''x/2.jpg'', ''https://x/3.jpg'', ''http://x/4.jpg'',
                               ''//x/5.jpg'', ''//x/6.jpg'']"

definition four_rows :: "json list" where
  "four_rows = map sample_row [''//x/7.jpg'', ''//x/8.jpg'', ''//x/9.jpg'', ''//x/10.jpg'']"

definition six_rows_same_picture :: "json list" where
  "six_rows_same_picture =
     map sample_row [''//x/1.jpg'', ''https://x/1.jpg'', ''x/1.jpg'', ''http://x/4.jpg'',
                     ''//x/5.jpg'', ''//x/6.jpg'']"


text \<open>
  A first page whose second entry has no image URL, whose third has an empty one and
  whose fourth and sixth repeat the first, and a second page whose first entry repeats
  the fifth entry of the first page; and six entries with different image URLs of which
  the third has the height \<open>tall\<close>.
\<close>

definition rows_with_repeats :: "json list" where
  "rows_with_repeats =
     [sample_row ''//x/1.jpg'',
      JObj [(''title'', JStr ''no picture'')],
      sample_row [],
      sample_row ''//x/1.jpg'',
      sample_row ''x/2.jpg'',
      JObj [(''image'', JStr ''//x/1.jpg''), (''height'', JStr ''tall'')]]"

definition rows_seen_before :: "json list" where
  "rows_seen_before = [sample_row ''x/2.jpg'', sample_row ''//x/3.jpg'', sample_row ''//x/4.jpg'']"

definition six_rows_bad_height :: "json list" where
  "six_rows_bad_height =
     [sample_row ''//x/1.jpg'', sample_row ''x/2.jpg'',
      JObj [(''image'', JStr ''https://x/3.jpg''), (''height'', JStr ''tall'')],
      sample_row ''http://x/4.jpg'', sample_row ''//x/5.jpg'', sample_row ''//x/6.jpg'']"


section \<open>ProxyManager: which endpoint get_proxy returns\<close>

lemma load_proxies_failed [simp]: "failed_proxies (load_proxies pm) = failed_proxies pm"
  by (simp add: load_proxies_def Let_def split: fetch_outcome.splits)

lemma load_proxies_n_loads [simp]: "n_loads (load_proxies pm) = Suc (n_loads pm)"
  by (simp add: load_proxies_def Let_def split: fetch_outcome.splits)

lemma find_working_keeps:
  "find_working k pm = (r, pm') \<Longrightarrow>
     failed_proxies pm' = failed_proxies pm \<and> proxies pm' = proxies pm
     \<and> n_loads pm' = n_loads pm"
proof (induction k arbitrary: pm)
  case 0
  then show ?case by simp
next
  case (Suc k)
  then show ?case
    by (auto simp: Let_def split: if_splits)
qed

lemma find_working_Found:
  "find_working k pm = (Found p, pm') \<Longrightarrow>
     p |\<notin>| failed_proxies pm \<and> p \<in> set (proxies pm)"
proof (induction k arbitrary: pm)
  case 0
  then show ?case by simp
next
  case (Suc k)
  show ?case
  proof (cases "proxies pm ! current_proxy_index pm |\<notin>| failed_proxies pm")
    case True
    with Suc.prems show ?thesis
      by (auto simp: Let_def split: if_splits)
  next
    case False
    with Suc.prems have "find_working k
        (pm\<lparr>current_proxy_index := (current_proxy_index pm + 1) mod length (proxies pm)\<rparr>)
        = (Found p, pm')"
      by (auto simp: Let_def split: if_splits)
    from Suc.IH [OF this] show ?thesis by simp
  qed
qed

text \<open>
  A scan that finds nothing has looked at the cursor's position and the \<open>k - 1\<close>
  positions after it, cyclically; over \<open>len(self.proxies)\<close> iterations that is every
  position.
\<close>

lemma find_working_AllFailed:
  "find_working k pm = (AllFailed, pm') \<Longrightarrow> j < k \<Longrightarrow>
     proxies pm ! ((current_proxy_index pm + j) mod length (proxies pm))
       |\<in>| failed_proxies pm"
proof (induction k arbitrary: pm j)
  case 0
  then show ?case by simp
next
  case (Suc k)
  let ?n = "length (proxies pm)"
  let ?i = "current_proxy_index pm"
  from Suc.prems(1) have lt: "?i < ?n"
    by (auto split: if_splits)
  from Suc.prems(1) lt have here: "proxies pm ! ?i |\<in>| failed_proxies pm"
    by (auto simp: Let_def split: if_splits)
  from Suc.prems(1) lt here
  have rec: "find_working k (pm\<lparr>current_proxy_index := (?i + 1) mod ?n\<rparr>) = (AllFailed, pm')"
    by (auto simp: Let_def split: if_splits)
  show ?case
  proof (cases j)
    case 0
    with lt here show ?thesis by simp
  next
    case (Suc j')
    with Suc.prems(2) have "j' < k" by simp
    from Suc.IH [OF rec this]
    have "proxies pm ! (((?i + 1) mod ?n + j') mod ?n) |\<in>| failed_proxies pm"
      by simp
    moreover have "((?i + 1) mod ?n + j') mod ?n = (?i + j) mod ?n"
      using Suc by (simp add: mod_add_left_eq)
    ultimately show ?thesis by simp
  qed
qed

lemma find_working_all_failed_pool:
  assumes "find_working (length (proxies pm)) pm = (AllFailed, pm')"
  shows "set (proxies pm) \<subseteq> fset (failed_proxies pm)"
proof
  fix p assume "p \<in> set (proxies pm)"
  then obtain i where i: "i < length (proxies pm)" "proxies pm ! i = p"
    by (auto simp: in_set_conv_nth)
  let ?n = "length (proxies pm)"
  let ?c = "current_proxy_index pm"
  define j where "j = (i + ?n - ?c) mod ?n"
  have pos: "0 < ?n" using i by auto
  have jn: "j < ?n" using pos by (simp add: j_def)
  have c: "?c < ?n" using assms i by (cases ?n) (auto split: if_splits)
  have "(?c + j) mod ?n = (?c + (i + ?n - ?c)) mod ?n"
    using c by (simp add: j_def mod_add_right_eq)
  also have "\<dots> = (i + ?n) mod ?n" using c by simp
  also have "\<dots> = i" using i by simp
  finally have "(?c + j) mod ?n = i" .
  with find_working_AllFailed [OF assms jn] i show "p \<in> fset (failed_proxies pm)"
    by simp
qed

lemma get_proxy_reload_clears:
  "get_proxy pm = (r, pm') \<Longrightarrow> n_loads pm' \<noteq> n_loads pm \<Longrightarrow> failed_proxies pm' = {||}"
  by (auto simp: get_proxy_def Let_def split: if_splits prod.splits scan_result.splits
      dest!: find_working_keeps)

lemma get_proxy_not_failed_after:
  "get_proxy pm = (Inr (Some p), pm') \<Longrightarrow> p |\<notin>| failed_proxies pm'"
  by (auto simp: get_proxy_def Let_def split: if_splits prod.splits scan_result.splits
      dest: find_working_keeps find_working_Found)

lemma get_proxy_failed_before:
  "get_proxy pm = (Inr (Some p), pm') \<Longrightarrow> p |\<in>| failed_proxies pm \<Longrightarrow>
     too_many_failed pm \<or> set (proxies pm) \<subseteq> fset (failed_proxies pm)"
  by (auto simp: get_proxy_def Let_def split: if_splits prod.splits scan_result.splits
      dest: find_working_Found find_working_all_failed_pool)

lemma get_proxy_eighty_pool:
  "get_proxy eighty_pool =
     (Inr (Some ''http://a''),
      eighty_pool\<lparr>failed_proxies := {||}, n_loads := 2\<rparr>)"
  by (simp add: get_proxy_def eighty_pool_def too_many_failed_def load_proxies_def
      script_def keep_order_def parse_proxy_lines_def strip_def is_space_def startswith_def
      fcard_finsert_if Let_def)

text \<open>
  Claim C3, as stated: \<open>get_proxy\<close> never returns an endpoint that is in the failed
  set unless the entire pool is failed. On \<open>eighty_pool\<close> it returns \<open>http://a\<close>,
  which is in the failed set of the pool it was called on, while \<open>http://f\<close> of that
  pool is not failed: five failed endpoints out of six exceed the 80 percent gate of
  line 92, the failed set is cleared and the list downloaded again.
\<close>

theorem get_proxy_returns_failed_counterexample:
  "fst (get_proxy eighty_pool) = Inr (Some ''http://a'')
   \<and> ''http://a'' |\<in>| failed_proxies eighty_pool
   \<and> ''http://f'' \<in> set (proxies eighty_pool)
   \<and> ''http://f'' |\<notin>| failed_proxies eighty_pool"
  by (simp add: get_proxy_eighty_pool) (simp add: eighty_pool_def)

text \<open>
  Claim C3, amended: an endpoint that \<open>get_proxy\<close> returns is in the failed set of the
  pool it was called on only if more than 80 percent of the pool is failed or every
  endpoint of the pool is failed; in both cases the failed set is cleared before the
  list is downloaded again, so the endpoint returned is never in the failed set on
  return, and whenever \<open>get_proxy\<close> has downloaded the list the failed set is empty
  on return.
\<close>

theorem get_proxy_failed_set:
  assumes "get_proxy pm = (r, pm')"
  shows "(\<forall>p. r = Inr (Some p) \<longrightarrow>
            p |\<notin>| failed_proxies pm'
            \<and> (p |\<in>| failed_proxies pm \<longrightarrow>
                 too_many_failed pm \<or> set (proxies pm) \<subseteq> fset (failed_proxies pm)))
         \<and> (n_loads pm' \<noteq> n_loads pm \<longrightarrow> failed_proxies pm' = {||})"
  using assms get_proxy_not_failed_after get_proxy_failed_before get_proxy_reload_clears
  by blast

theorem get_proxy_failed_set_witness:
  "get_proxy eighty_pool
     = (Inr (Some ''http://a''), eighty_pool\<lparr>failed_proxies := {||}, n_loads := 2\<rparr>)
   \<and> ''http://a'' |\<in>| failed_proxies eighty_pool
   \<and> too_many_failed eighty_pool
   \<and> ''http://a'' |\<notin>| failed_proxies (eighty_pool\<lparr>failed_proxies := {||}, n_loads := 2\<rparr>)
   \<and> n_loads (eighty_pool\<lparr>failed_proxies := {||}, n_loads := 2\<rparr>) \<noteq> n_loads eighty_pool
   \<and> failed_proxies (eighty_pool\<lparr>failed_proxies := {||}, n_loads := 2\<rparr>) = {||}"
  using get_proxy_failed_set [OF get_proxy_eighty_pool]
  by (simp add: get_proxy_eighty_pool)
     (simp add: eighty_pool_def too_many_failed_def fcard_finsert_if)

text \<open>
  Claim C4: \<open>get_proxy\<close> never raises. On \<open>stale_cursor_pool\<close> both endpoints are
  failed, so the list is downloaded again; the new list has one endpoint, the cursor
  still is 1, and \<open>self.proxies[self.current_proxy_index]\<close> raises \<open>IndexError\<close>.
\<close>

theorem get_proxy_stale_cursor_raises:
  "fst (get_proxy stale_cursor_pool) = Inl IndexError"
  by (simp add: get_proxy_def stale_cursor_pool_def too_many_failed_def load_proxies_def
      script_def keep_order_def parse_proxy_lines_def strip_def is_space_def startswith_def
      fcard_finsert_if Let_def)

section \<open>RequestExecutor: the rate-limit counter and proxy activation\<close>

lemma with_pm_fields [simp]:
  "rate_limit_count (with_pm f s) = rate_limit_count s"
  "sent (with_pm f s) = sent s"
  "stdout (with_pm f s) = stdout s"
  "upstream (with_pm f s) = upstream s"
  "n_requests (with_pm f s) = n_requests s"
  by (simp_all add: with_pm_def)

lemma mark_current_fields [simp]:
  "rate_limit_count (mark_current cur s) = rate_limit_count s"
  "sent (mark_current cur s) = sent s"
  "stdout (mark_current cur s) = stdout s"
  "upstream (mark_current cur s) = upstream s"
  "n_requests (mark_current cur s) = n_requests s"
  by (simp_all add: mark_current_def)

lemma select_proxy_fields:
  "select_proxy cur kw s = (r, s1) \<Longrightarrow>
     rate_limit_count s1 = rate_limit_count s \<and> sent s1 = sent s \<and> stdout s1 = stdout s
     \<and> upstream s1 = upstream s \<and> n_requests s1 = n_requests s"
  by (auto simp: select_proxy_def split: if_splits prod.splits sum.splits)

lemma select_proxy_kw:
  "select_proxy cur kw s = (Inr (cur1, kw1), s1) \<Longrightarrow> kw1 \<noteq> None \<Longrightarrow>
     2 < rate_limit_count s \<or> kw1 = kw"
  by (auto simp: select_proxy_def split: if_splits prod.splits sum.splits)

lemma on_request_exception_inv:
  "counter_inv kw s \<Longrightarrow>
     (case on_request_exception again cur kw e msg s of
        Retry c k s' \<Rightarrow> counter_inv k s'
      | Finish r s' \<Rightarrow> counter_inv None s')"
  by (auto simp: on_request_exception_def counter_inv_def Let_def)

lemma on_proxy_error_inv:
  "counter_inv kw s \<Longrightarrow>
     (case on_proxy_error again cur kw msg s of
        Retry c k s' \<Rightarrow> counter_inv k s'
      | Finish r s' \<Rightarrow> counter_inv None s')"
  by (auto simp: on_proxy_error_def counter_inv_def Let_def)

lemma counter_inv_None: "counter_inv kw s \<Longrightarrow> counter_inv None s"
  by (simp add: counter_inv_def)

lemma after_rate_check_inv:
  "counter_inv kw s \<Longrightarrow>
     (case after_rate_check again cur kw r s of
        Retry c k s' \<Rightarrow> counter_inv k s'
      | Finish r s' \<Rightarrow> counter_inv None s')"
proof (cases "raise_for_status r")
  case None
  assume "counter_inv kw s"
  with None show ?thesis
    by (auto simp: after_rate_check_def counter_inv_def Let_def)
next
  case (Some msg)
  assume inv: "counter_inv kw s"
  from Some have "status_code r \<noteq> 200"
    by (auto simp: raise_for_status_def split: if_splits)
  with Some on_request_exception_inv [OF inv] show ?thesis
    by (simp add: after_rate_check_def)
qed

lemma counter_inv_bump:
  "counter_inv kw s \<Longrightarrow>
     counter_inv kw (mark_current cur (s\<lparr>rate_limit_count := rate_limit_count s + 1\<rparr>))"
  by (auto simp: counter_inv_def)

lemma on_response_inv:
  assumes "counter_inv kw s"
  shows "(case on_response again cur kw r s of
            Retry c k s' \<Rightarrow> counter_inv k s'
          | Finish r s' \<Rightarrow> counter_inv None s')"
proof (cases "status_code r \<in> set [429, 403, 503]")
  case False
  with after_rate_check_inv [OF assms] show ?thesis
    by (simp add: on_response_def)
next
  case True
  let ?s1 = "mark_current cur (s\<lparr>rate_limit_count := rate_limit_count s + 1\<rparr>)"
  have inv1: "counter_inv kw ?s1" using assms by (rule counter_inv_bump)
  show ?thesis
  proof (cases again)
    case True
    with \<open>status_code r \<in> set [429, 403, 503]\<close> inv1 show ?thesis
      by (auto simp: on_response_def Let_def counter_inv_def)
  next
    case False
    with \<open>status_code r \<in> set [429, 403, 503]\<close> after_rate_check_inv [OF inv1]
    show ?thesis
      by (simp add: on_response_def Let_def)
  qed
qed

lemma attempt_inv:
  assumes "counter_inv kw s"
  shows "(case attempt again cur kw s of
            Retry c k s' \<Rightarrow> counter_inv k s'
          | Finish r s' \<Rightarrow> counter_inv None s')"
proof (cases "select_proxy cur kw s")
  case (Pair res s1)
  note f = select_proxy_fields [OF Pair]
  show ?thesis
  proof (cases res)
    case (Inl e)
    with Pair f assms show ?thesis
      by (simp add: attempt_def counter_inv_def)
  next
    case (Inr ck)
    obtain cur1 kw1 where ck: "ck = (cur1, kw1)" by (cases ck)
    let ?s2 = "s1\<lparr>n_requests := Suc (n_requests s1),
                   sent := sent s1 @ [\<lparr>counter_before = rate_limit_count s, via_proxy = kw1\<rparr>]\<rparr>"
    have kw1: "kw1 \<noteq> None \<longrightarrow> 2 < rate_limit_count s"
      using select_proxy_kw [of cur kw s cur1 kw1 s1] Pair Inr ck assms
      by (auto simp: counter_inv_def)
    have inv2: "counter_inv kw1 ?s2"
      using assms f kw1 by (simp add: counter_inv_def gate_respected_def)
    show ?thesis
    proof (cases "upstream s1 (n_requests s1)")
      case (Responded r)
      with Pair Inr ck on_response_inv [OF inv2, of again cur1 r] show ?thesis
        by (simp add: attempt_def Let_def)
    next
      case (RaisedProxyError msg)
      with Pair Inr ck on_proxy_error_inv [OF inv2, of again cur1 msg] show ?thesis
        by (simp add: attempt_def Let_def)
    next
      case (RaisedRequestException msg)
      with Pair Inr ck
        on_request_exception_inv [OF inv2, of again cur1 "RequestException msg" msg]
      show ?thesis
        by (simp add: attempt_def Let_def)
    next
      case (RaisedOther msg)
      with Pair Inr ck counter_inv_None [OF inv2] show ?thesis
        by (simp add: attempt_def Let_def)
    qed
  qed
qed

lemma request_loop_inv:
  "counter_inv kw s \<Longrightarrow> counter_inv None (snd (request_loop left cur kw s))"
proof (induction left arbitrary: cur kw s)
  case 0
  then show ?case by (simp add: counter_inv_def)
next
  case (Suc left)
  from attempt_inv [OF Suc.prems, of "left \<noteq> 0" cur] Suc.IH show ?case
    by (cases "attempt (left \<noteq> 0) cur kw s") auto
qed

lemma make_request_inv:
  "counter_inv None s \<Longrightarrow> counter_inv None (snd (make_request s))"
  by (simp add: make_request_def request_loop_inv)

lemma run_requests_inv:
  "counter_inv None s \<Longrightarrow> counter_inv None (run_requests n s)"
  by (induction n arbitrary: s) (auto intro: make_request_inv)

lemma new_api_inv: "counter_inv None (new_api src shf up)"
  by (simp add: new_api_def counter_inv_def)

text \<open>
  Claim C5: across every sequence of \<open>_make_request\<close> calls of a new
  \<open>ImageSearchAPI\<close>, in every outside world, the rate-limit counter is never negative
  (at the start of each attempt and after each call), and a request goes out through a
  proxy only in an attempt that started with the counter above 2.
\<close>

theorem rate_limit_counter_gates_proxy:
  "0 \<le> rate_limit_count (run_requests n (new_api src shf up))
   \<and> list_all gate_respected (sent (run_requests n (new_api src shf up)))"
  using run_requests_inv [OF new_api_inv, of n src shf up]
  by (simp add: counter_inv_def)

theorem rate_limit_counter_gates_proxy_witness:
  "sent (run_requests 2 (new_api two_proxies keep_order throttled_world)) =
      [\<lparr>counter_before = 0, via_proxy = None\<rparr>,
       \<lparr>counter_before = 1, via_proxy = None\<rparr>,
       \<lparr>counter_before = 2, via_proxy = None\<rparr>,
       \<lparr>counter_before = 4, via_proxy = Some ''http://p1''\<rparr>]
   \<and> rate_limit_count (run_requests 2 (new_api two_proxies keep_order throttled_world)) = 3
   \<and> 0 \<le> rate_limit_count (run_requests 2 (new_api two_proxies keep_order throttled_world))
   \<and> list_all gate_respected
        (sent (run_requests 2 (new_api two_proxies keep_order throttled_world)))"
proof -
  have a: "sent (run_requests 2 (new_api two_proxies keep_order throttled_world)) =
      [\<lparr>counter_before = 0, via_proxy = None\<rparr>,
       \<lparr>counter_before = 1, via_proxy = None\<rparr>,
       \<lparr>counter_before = 2, via_proxy = None\<rparr>,
       \<lparr>counter_before = 4, via_proxy = Some ''http://p1''\<rparr>]"
    by code_simp
  have b: "rate_limit_count (run_requests 2 (new_api two_proxies keep_order throttled_world)) = 3"
    by code_simp
  from rate_limit_counter_gates_proxy [of 2 two_proxies keep_order throttled_world] a b
  show ?thesis by simp
qed

section \<open>RequestExecutor: what a response does\<close>

lemma request_loop_Suc:
  "request_loop (Suc left) cur kw s =
     (case attempt (left \<noteq> 0) cur kw s of
        Retry cur1 kw1 s1 \<Rightarrow> request_loop left cur1 kw1 s1
      | Finish r s1 \<Rightarrow> (r, s1))"
  by simp

lemma raise_for_status_None:
  "status_code r < 400 \<or> 600 \<le> status_code r \<Longrightarrow> raise_for_status r = None"
  by (auto simp: raise_for_status_def)

lemma raise_for_status_Some:
  "400 \<le> status_code r \<Longrightarrow> status_code r < 600 \<Longrightarrow> \<exists>msg. raise_for_status r = Some msg"
  by (auto simp: raise_for_status_def)

lemma on_response_200:
  "status_code r = 200 \<Longrightarrow>
     on_response again cur kw r s
       = Finish (Inr r) (s\<lparr>rate_limit_count := max 0 (rate_limit_count s - 1)\<rparr>)"
  by (simp add: on_response_def after_rate_check_def raise_for_status_def)

lemma on_response_other_success:
  "status_code r \<noteq> 200 \<Longrightarrow> status_code r < 400 \<or> 600 \<le> status_code r \<Longrightarrow>
     on_response again cur kw r s = Finish (Inr r) s"
  by (auto simp: on_response_def after_rate_check_def raise_for_status_def)

lemma on_response_error_last:
  assumes "400 \<le> status_code r" "status_code r < 600" "status_code r \<notin> {429, 403, 503}"
  shows "\<exists>msg s'. raise_for_status r = Some msg
           \<and> on_response False cur kw r s = Finish (Inl (HTTPError msg)) s'"
proof -
  from raise_for_status_Some [OF assms(1,2)] obtain msg where "raise_for_status r = Some msg" ..
  with assms(3) show ?thesis
    by (auto simp: on_response_def after_rate_check_def on_request_exception_def Let_def)
qed

lemma on_response_error_retry:
  assumes "400 \<le> status_code r" "status_code r < 600" "status_code r \<notin> {429, 403, 503}"
  shows "\<exists>s'. on_response True cur kw r s = Retry cur kw s'"
proof -
  from raise_for_status_Some [OF assms(1,2)] obtain msg where "raise_for_status r = Some msg" ..
  with assms(3) show ?thesis
    by (auto simp: on_response_def after_rate_check_def on_request_exception_def Let_def)
qed

lemma attempt_Responded:
  assumes "select_proxy cur kw s = (Inr (cur1, kw1), s1)"
      and "upstream s1 (n_requests s1) = Responded r"
  shows "attempt again cur kw s =
           on_response again cur1 kw1 r
             (s1\<lparr>n_requests := Suc (n_requests s1),
                 sent := sent s1 @ [\<lparr>counter_before = rate_limit_count s, via_proxy = kw1\<rparr>]\<rparr>)"
  using assms by (simp add: attempt_def Let_def)

text \<open>
  Claim C6, as stated: every response with a 2xx status decrements the rate-limit
  counter (floor 0) and is returned, and a response with a non-2xx status other than
  429, 403 and 503 raises an HTTP failure to the caller. In \<open>no_content_world\<close> the
  second attempt starts with the counter at 1 and is answered with status 204: the
  response is returned and the counter still is 1. In \<open>not_found_world\<close> the first
  attempt is answered with status 404: nothing is raised to the caller, the request is
  sent again and the second response is returned.
\<close>

theorem make_request_2xx_not_decremented_counterexample:
  "fst (make_request (new_api two_proxies keep_order no_content_world))
     = Inr (plain_response 204 ''No Content'')
   \<and> map counter_before
         (sent (snd (make_request (new_api two_proxies keep_order no_content_world)))) = [0, 1]
   \<and> rate_limit_count (snd (make_request (new_api two_proxies keep_order no_content_world))) = 1
   \<and> fst (make_request (new_api two_proxies keep_order not_found_world))
     = Inr (plain_response 200 ''OK'')"
  by code_simp

lemma select_proxy_low:
  "rate_limit_count s \<le> 2 \<Longrightarrow> select_proxy cur kw s = (Inr (cur, kw), s)"
  by (simp add: select_proxy_def)

lemma on_response_error:
  assumes "400 \<le> status_code r" "status_code r < 600" "status_code r \<notin> {429, 403, 503}"
    and "raise_for_status r = Some msg"
  shows "on_response again cur kw r s =
           (if again then Retry cur kw (http_error_state True cur msg s)
            else Finish (Inl (HTTPError msg)) (http_error_state False cur msg s))"
  using assms
  by (auto simp: on_response_def after_rate_check_def on_request_exception_def
      http_error_state_def Let_def)

lemma request_loop_200:
  assumes "select_proxy cur kw s = (Inr (cur1, kw1), s1)"
    and "upstream s1 (n_requests s1) = Responded r" and "status_code r = 200"
  shows "fst (request_loop (Suc left) cur kw s) = Inr r"
  using assms by (simp add: attempt_Responded on_response_200)

text \<open>
  Claim C6, amended: when an attempt of \<open>_make_request\<close> sends its request and a
  response answers it, then: a response with status 200 is returned and the counter is
  decremented by one with a floor of 0; a response with any other status outside
  400..599 is returned and the counter is unchanged; a response with a status in
  400..599 other than 429, 403 and 503 raises the \<open>HTTPError\<close> of
  \<open>raise_for_status\<close> to the caller when it answers the last attempt, and when it
  answers an earlier attempt nothing is raised: the loop goes on with the remaining
  attempts from the state the handler left, so that the next request is sent, and if
  a response with status 200 answers that one, it is what the caller gets.
\<close>

theorem make_request_status_handling:
  assumes sel: "select_proxy cur kw s = (Inr (cur1, kw1), s1)"
      and up: "upstream s1 (n_requests s1) = Responded r"
  shows "(status_code r = 200 \<longrightarrow>
            fst (request_loop (Suc left) cur kw s) = Inr r
            \<and> rate_limit_count (snd (request_loop (Suc left) cur kw s))
                = max 0 (rate_limit_count s - 1))
       \<and> (status_code r \<noteq> 200 \<and> (status_code r < 400 \<or> 600 \<le> status_code r) \<longrightarrow>
            fst (request_loop (Suc left) cur kw s) = Inr r
            \<and> rate_limit_count (snd (request_loop (Suc left) cur kw s)) = rate_limit_count s)
       \<and> (400 \<le> status_code r \<and> status_code r < 600 \<and> status_code r \<notin> {429, 403, 503} \<longrightarrow>
            (\<exists>msg. raise_for_status r = Some msg
                \<and> fst (request_loop (Suc 0) cur kw s) = Inl (HTTPError msg)))
       \<and> (400 \<le> status_code r \<and> status_code r < 600 \<and> status_code r \<notin> {429, 403, 503}
            \<and> raise_for_status r = Some msg \<longrightarrow>
            request_loop (Suc 0) cur kw s
              = (Inl (HTTPError msg), http_error_state False cur1 msg (after_send s s1 kw1))
            \<and> request_loop (Suc (Suc left)) cur kw s
              = request_loop (Suc left) cur1 kw1
                  (http_error_state True cur1 msg (after_send s s1 kw1))
            \<and> (select_proxy cur1 kw1 (http_error_state True cur1 msg (after_send s s1 kw1))
                  = (Inr (cur2, kw2), s3)
                \<and> upstream s3 (n_requests s3) = Responded r2 \<and> status_code r2 = 200 \<longrightarrow>
                fst (request_loop (Suc (Suc left)) cur kw s) = Inr r2))"
proof -
  note f = select_proxy_fields [OF sel]
  have a: "attempt again cur kw s = on_response again cur1 kw1 r (after_send s s1 kw1)" for again
    using attempt_Responded [OF sel up] by (simp add: after_send_def)
  have c1: "status_code r = 200 \<longrightarrow>
            fst (request_loop (Suc left) cur kw s) = Inr r
            \<and> rate_limit_count (snd (request_loop (Suc left) cur kw s))
                = max 0 (rate_limit_count s - 1)"
    using f by (simp add: a on_response_200 after_send_def)
  have c2: "status_code r \<noteq> 200 \<and> (status_code r < 400 \<or> 600 \<le> status_code r) \<longrightarrow>
            fst (request_loop (Suc left) cur kw s) = Inr r
            \<and> rate_limit_count (snd (request_loop (Suc left) cur kw s)) = rate_limit_count s"
    using f by (auto simp: a on_response_other_success after_send_def)
  have c3: "400 \<le> status_code r \<and> status_code r < 600 \<and> status_code r \<notin> {429, 403, 503} \<longrightarrow>
            (\<exists>msg. raise_for_status r = Some msg
                \<and> fst (request_loop (Suc 0) cur kw s) = Inl (HTTPError msg))"
  proof
    assume h: "400 \<le> status_code r \<and> status_code r < 600 \<and> status_code r \<notin> {429, 403, 503}"
    then obtain m where m: "raise_for_status r = Some m"
      using raise_for_status_Some [of r] by blast
    with h have "fst (request_loop (Suc 0) cur kw s) = Inl (HTTPError m)"
      by (simp add: a on_response_error)
    with m show "\<exists>msg. raise_for_status r = Some msg
                \<and> fst (request_loop (Suc 0) cur kw s) = Inl (HTTPError msg)"
      by blast
  qed
  have c4: "request_loop (Suc 0) cur kw s
              = (Inl (HTTPError msg), http_error_state False cur1 msg (after_send s s1 kw1))
            \<and> request_loop (Suc (Suc left)) cur kw s
              = request_loop (Suc left) cur1 kw1
                  (http_error_state True cur1 msg (after_send s s1 kw1))
            \<and> (select_proxy cur1 kw1 (http_error_state True cur1 msg (after_send s s1 kw1))
                  = (Inr (cur2, kw2), s3)
                \<and> upstream s3 (n_requests s3) = Responded r2 \<and> status_code r2 = 200 \<longrightarrow>
                fst (request_loop (Suc (Suc left)) cur kw s) = Inr r2)"
    if h: "400 \<le> status_code r \<and> status_code r < 600 \<and> status_code r \<notin> {429, 403, 503}
            \<and> raise_for_status r = Some msg"
  proof -
    from h have last: "request_loop (Suc 0) cur kw s
              = (Inl (HTTPError msg), http_error_state False cur1 msg (after_send s s1 kw1))"
      by (simp add: a on_response_error)
    from h have "attempt True cur kw s
                   = Retry cur1 kw1 (http_error_state True cur1 msg (after_send s s1 kw1))"
      by (simp add: a on_response_error)
    then have retry: "request_loop (Suc (Suc left)) cur kw s
              = request_loop (Suc left) cur1 kw1
                  (http_error_state True cur1 msg (after_send s s1 kw1))"
      by (simp del: request_loop.simps add: request_loop_Suc)
    have "fst (request_loop (Suc (Suc left)) cur kw s) = Inr r2"
      if "select_proxy cur1 kw1 (http_error_state True cur1 msg (after_send s s1 kw1))
                  = (Inr (cur2, kw2), s3)
                \<and> upstream s3 (n_requests s3) = Responded r2 \<and> status_code r2 = 200"
      using that request_loop_200 [of cur1 kw1
          "http_error_state True cur1 msg (after_send s s1 kw1)" cur2 kw2 s3 r2 left]
      by (simp only: retry)
    with last retry show ?thesis by blast
  qed
  from c1 c2 c3 c4 show ?thesis by blast
qed

theorem make_request_status_handling_witness:
  "fst (request_loop (Suc 2) None None
          (new_api two_proxies keep_order (answer_once (plain_response 200 ''OK''))))
     = Inr (plain_response 200 ''OK'')
   \<and> rate_limit_count (snd (request_loop (Suc 2) None None
          (new_api two_proxies keep_order (answer_once (plain_response 200 ''OK''))))) = 0
   \<and> fst (request_loop (Suc 2) None None
          (new_api two_proxies keep_order (answer_once (plain_response 204 ''No Content''))))
     = Inr (plain_response 204 ''No Content'')
   \<and> rate_limit_count (snd (request_loop (Suc 2) None None
          (new_api two_proxies keep_order (answer_once (plain_response 204 ''No Content''))))) = 0
   \<and> raise_for_status (plain_response 404 ''Not Found'')
       = Some ''404 Client Error: Not Found for url: https://duckduckgo.com/''
   \<and> fst (request_loop (Suc 0) None None
               (new_api two_proxies keep_order (answer_once (plain_response 404 ''Not Found''))))
       = Inl (HTTPError ''404 Client Error: Not Found for url: https://duckduckgo.com/'')
   \<and> request_loop (Suc 0) None None (new_api two_proxies keep_order not_found_world)
       = (Inl (HTTPError ''404 Client Error: Not Found for url: https://duckduckgo.com/''),
          after_send (new_api two_proxies keep_order not_found_world)
            (new_api two_proxies keep_order not_found_world) None)
   \<and> fst (request_loop (Suc (Suc 1)) None None (new_api two_proxies keep_order not_found_world))
       = Inr (plain_response 200 ''OK'')"
proof -
  let ?msg = "''404 Client Error: Not Found for url: https://duckduckgo.com/''"
  let ?N = "new_api two_proxies keep_order not_found_world"
  have sel: "select_proxy None None (new_api two_proxies keep_order w)
               = (Inr (None, None), new_api two_proxies keep_order w)" for w
    by (simp add: select_proxy_def new_api_def)
  have up: "upstream (new_api two_proxies keep_order (answer_once r))
              (n_requests (new_api two_proxies keep_order (answer_once r))) = Responded r" for r
    by (simp add: new_api_def answer_once_def script_def)
  have upN: "upstream ?N (n_requests ?N) = Responded (plain_response 404 ''Not Found'')"
    by (simp add: new_api_def not_found_world_def script_def)
  have count: "rate_limit_count (new_api two_proxies keep_order w) = 0" for w
    by (simp add: new_api_def)
  have msg: "raise_for_status (plain_response 404 ''Not Found'') = Some ?msg"
    by code_simp
  have nrl: "\<not> rate_limit_message ?msg"
    by code_simp
  then have st: "http_error_state again None ?msg t = t" for again t
    by (simp add: http_error_state_def)
  have sel2: "select_proxy None None (after_send ?N ?N None)
                = (Inr (None, None), after_send ?N ?N None)"
    by (rule select_proxy_low) (simp add: after_send_def new_api_def)
  have up2: "upstream (after_send ?N ?N None) (n_requests (after_send ?N ?N None))
               = Responded (plain_response 200 ''OK'')"
    by (simp add: after_send_def new_api_def not_found_world_def script_def)
  have codes: "status_code (plain_response 200 ''OK'') = 200"
    "status_code (plain_response 204 ''No Content'') = 204"
    "status_code (plain_response 404 ''Not Found'') = 404"
    by (simp_all add: plain_response_def)
  let ?r404 = "plain_response 404 ''Not Found''"
  have h4: "400 \<le> status_code ?r404 \<and> status_code ?r404 < 600
              \<and> status_code ?r404 \<notin> {429, 403, 503}"
    by (simp add: codes)
  from make_request_status_handling [OF sel up, of "plain_response 200 ''OK''" 2] codes count
  have w1: "fst (request_loop (Suc 2) None None
          (new_api two_proxies keep_order (answer_once (plain_response 200 ''OK''))))
     = Inr (plain_response 200 ''OK'')
   \<and> rate_limit_count (snd (request_loop (Suc 2) None None
          (new_api two_proxies keep_order (answer_once (plain_response 200 ''OK''))))) = 0"
    by (simp del: request_loop.simps)
  from make_request_status_handling [OF sel up, of "plain_response 204 ''No Content''" 2]
    codes count
  have w2: "fst (request_loop (Suc 2) None None
          (new_api two_proxies keep_order (answer_once (plain_response 204 ''No Content''))))
     = Inr (plain_response 204 ''No Content'')
   \<and> rate_limit_count (snd (request_loop (Suc 2) None None
          (new_api two_proxies keep_order (answer_once (plain_response 204 ''No Content''))))) = 0"
    by (simp del: request_loop.simps)
  from make_request_status_handling [OF sel up, of ?r404 1] h4
  have "\<exists>m. raise_for_status ?r404 = Some m
         \<and> fst (request_loop (Suc 0) None None
               (new_api two_proxies keep_order (answer_once ?r404))) = Inl (HTTPError m)"
    by blast
  with msg have w3: "fst (request_loop (Suc 0) None None
               (new_api two_proxies keep_order (answer_once ?r404))) = Inl (HTTPError ?msg)"
    by (auto simp del: request_loop.simps)
  from make_request_status_handling [OF sel upN, where left = 1 and msg = ?msg
         and ?cur2.0 = None and ?kw2.0 = None and ?s3.0 = "after_send ?N ?N None"
         and ?r2.0 = "plain_response 200 ''OK''"] h4 msg
  have "request_loop (Suc 0) None None ?N
              = (Inl (HTTPError ?msg), http_error_state False None ?msg (after_send ?N ?N None))
        \<and> (select_proxy None None (http_error_state True None ?msg (after_send ?N ?N None))
                  = (Inr (None, None), after_send ?N ?N None)
                \<and> upstream (after_send ?N ?N None) (n_requests (after_send ?N ?N None))
                    = Responded (plain_response 200 ''OK'')
                \<and> status_code (plain_response 200 ''OK'') = 200 \<longrightarrow>
                fst (request_loop (Suc (Suc 1)) None None ?N) = Inr (plain_response 200 ''OK''))"
    by blast
  with sel2 up2 codes(1)
  have w4: "request_loop (Suc 0) None None ?N
              = (Inl (HTTPError ?msg), after_send ?N ?N None)
        \<and> fst (request_loop (Suc (Suc 1)) None None ?N) = Inr (plain_response 200 ''OK'')"
    by (simp only: st simp_thms)
  from w1 w2 w3 w4 msg show ?thesis by blast
qed

section \<open>FallbackExtractor, Method 2: which elements become results\<close>

lemma img_loop_kept:
  "img_loop kw m imgs acc = acc @ map (img_result kw) (kept_imgs m imgs (length acc))"
  by (induction imgs arbitrary: acc) auto

lemma kept_imgs_subseq: "subseq (kept_imgs m imgs n) imgs"
  by (induction imgs arbitrary: n) auto

lemma kept_imgs_not_skipped: "img \<in> set (kept_imgs m imgs n) \<Longrightarrow> \<not> skipped img"
  by (induction imgs arbitrary: n) (auto split: if_splits)

lemma kept_imgs_nonpositive: "m \<le> 0 \<Longrightarrow> kept_imgs m imgs n = []"
  by (cases imgs) auto

lemma method2_kept:
  "method2 kw m imgs = map (img_result kw) (kept_imgs m (take (nat (m * 2)) imgs) 0)"
proof (cases "0 \<le> m")
  case True
  then show ?thesis by (simp add: method2_def img_loop_kept py_slice_to_def)
next
  case False
  then show ?thesis by (simp add: method2_def img_loop_kept kept_imgs_nonpositive)
qed

lemma normalize_url_not_data: "\<not> startswith (normalize_url u) ''data:''"
  by (auto simp: normalize_url_def startswith_def prefix_def)

lemma method2_prefix_only: "method2 kw m imgs = method2 kw m (take (nat (m * 2)) imgs)"
  by (simp add: method2_kept)

text \<open>
  Claim C9: the results of Strategy B are built, in order, from elements among the
  first \<open>2 * max_results\<close> image elements; none of these elements has a source that
  starts with \<open>data:\<close> (nor has the result's image URL), and none has a declared
  width and height that are both numeric with one of them below 100; the elements after
  the first \<open>2 * max_results\<close> have no influence on the results.
\<close>

theorem strategy_b_filters:
  "(\<exists>kept. subseq kept (take (nat (2 * max_results)) imgs)
       \<and> method2 keywords max_results imgs = map (img_result keywords) kept
       \<and> (\<forall>img \<in> set kept.
            \<not> startswith (attr_src img) ''data:''
            \<and> \<not> startswith (image (img_result keywords img)) ''data:''
            \<and> \<not> (isdigit (declared_width img) \<and> isdigit (declared_height img)
                 \<and> (int_of_digits (declared_width img) < 100
                      \<or> int_of_digits (declared_height img) < 100))))
   \<and> method2 keywords max_results imgs
       = method2 keywords max_results (take (nat (2 * max_results)) imgs)"
proof -
  let ?kept = "kept_imgs max_results (take (nat (max_results * 2)) imgs) 0"
  have "subseq ?kept (take (nat (2 * max_results)) imgs)"
    using kept_imgs_subseq [of max_results "take (nat (max_results * 2)) imgs" 0]
    by (simp add: mult.commute)
  moreover have "method2 keywords max_results imgs = map (img_result keywords) ?kept"
    by (rule method2_kept)
  moreover have "\<forall>img \<in> set ?kept.
            \<not> startswith (attr_src img) ''data:''
            \<and> \<not> startswith (image (img_result keywords img)) ''data:''
            \<and> \<not> (isdigit (declared_width img) \<and> isdigit (declared_height img)
                 \<and> (int_of_digits (declared_width img) < 100
                      \<or> int_of_digits (declared_height img) < 100))"
    using kept_imgs_not_skipped [of _ max_results "take (nat (max_results * 2)) imgs" 0]
    by (auto simp: skipped_def too_small_def img_result_def normalize_url_not_data)
  moreover have "method2 keywords max_results imgs
       = method2 keywords max_results (take (nat (2 * max_results)) imgs)"
    using method2_prefix_only [of "keywords" max_results imgs] by (simp add: mult.commute)
  ultimately show ?thesis by blast
qed


theorem strategy_b_filters_witness:
  "method2 ''cats'' 3 sample_imgs = map (img_result ''cats'') [sample_imgs ! 4, sample_imgs ! 5]
   \<and> (\<exists>kept. subseq kept (take (nat (2 * 3)) sample_imgs)
       \<and> method2 ''cats'' 3 sample_imgs = map (img_result ''cats'') kept
       \<and> (\<forall>img \<in> set kept.
            \<not> startswith (attr_src img) ''data:''
            \<and> \<not> startswith (image (img_result ''cats'' img)) ''data:''
            \<and> \<not> (isdigit (declared_width img) \<and> isdigit (declared_height img)
                 \<and> (int_of_digits (declared_width img) < 100
                      \<or> int_of_digits (declared_height img) < 100))))
   \<and> method2 ''cats'' 3 sample_imgs = method2 ''cats'' 3 (take (nat (2 * 3)) sample_imgs)"
proof -
  have ev: "method2 ''cats'' 3 sample_imgs
              = map (img_result ''cats'') [sample_imgs ! 4, sample_imgs ! 5]"
    by code_simp
  from strategy_b_filters [of 3 sample_imgs "''cats''"] ev show ?thesis by blast
qed

lemma default_dimension: "isdigit ''0'' \<and> int_of_digits ''0'' < 100"
  by (simp add: isdigit_def is_digit_def int_of_digits_def digit_val_def)

text \<open>
  Claim C10: an element with neither a \<open>width\<close> nor a \<open>height\<close> attribute is never
  among the elements Strategy B builds a result from: a missing attribute reads as the
  string \<open>0\<close>, which is numeric and below 100. Every element a result is built from
  has a declared width and height that are both numeric and at least 100, or at least
  one of them is not numeric.
\<close>

theorem strategy_b_missing_dimensions:
  "(\<exists>kept. subseq kept (take (nat (2 * max_results)) imgs)
       \<and> method2 keywords max_results imgs = map (img_result keywords) kept
       \<and> (\<forall>img \<in> set kept.
            \<not> (attr_width img = None \<and> attr_height img = None)
            \<and> ((isdigit (declared_width img) \<and> isdigit (declared_height img)
                  \<and> 100 \<le> int_of_digits (declared_width img)
                  \<and> 100 \<le> int_of_digits (declared_height img))
                 \<or> \<not> isdigit (declared_width img) \<or> \<not> isdigit (declared_height img))))
   \<and> (\<forall>img. attr_width img = None \<longrightarrow>
         declared_width img = ''0'' \<and> isdigit (declared_width img)
         \<and> int_of_digits (declared_width img) < 100)
   \<and> (\<forall>img. attr_height img = None \<longrightarrow>
         declared_height img = ''0'' \<and> isdigit (declared_height img)
         \<and> int_of_digits (declared_height img) < 100)"
proof -
  let ?kept = "kept_imgs max_results (take (nat (max_results * 2)) imgs) 0"
  have a: "subseq ?kept (take (nat (2 * max_results)) imgs)"
    using kept_imgs_subseq [of max_results "take (nat (max_results * 2)) imgs" 0]
    by (simp add: mult.commute)
  have b: "method2 keywords max_results imgs = map (img_result keywords) ?kept"
    by (rule method2_kept)
  have c: "\<forall>img \<in> set ?kept.
            \<not> (attr_width img = None \<and> attr_height img = None)
            \<and> ((isdigit (declared_width img) \<and> isdigit (declared_height img)
                  \<and> 100 \<le> int_of_digits (declared_width img)
                  \<and> 100 \<le> int_of_digits (declared_height img))
                 \<or> \<not> isdigit (declared_width img) \<or> \<not> isdigit (declared_height img))"
  proof
    fix img assume "img \<in> set ?kept"
    then have ns: "\<not> too_small img"
      using kept_imgs_not_skipped [of img max_results "take (nat (max_results * 2)) imgs" 0]
      by (simp add: skipped_def)
    have "\<not> (attr_width img = None \<and> attr_height img = None)"
      using ns default_dimension
      by (auto simp: too_small_def declared_width_def declared_height_def)
    moreover have "(isdigit (declared_width img) \<and> isdigit (declared_height img)
                  \<and> 100 \<le> int_of_digits (declared_width img)
                  \<and> 100 \<le> int_of_digits (declared_height img))
                 \<or> \<not> isdigit (declared_width img) \<or> \<not> isdigit (declared_height img)"
      using ns by (auto simp: too_small_def)
    ultimately show "\<not> (attr_width img = None \<and> attr_height img = None)
            \<and> ((isdigit (declared_width img) \<and> isdigit (declared_height img)
                  \<and> 100 \<le> int_of_digits (declared_width img)
                  \<and> 100 \<le> int_of_digits (declared_height img))
                 \<or> \<not> isdigit (declared_width img) \<or> \<not> isdigit (declared_height img))"
      by blast
  qed
  have d: "\<forall>img. attr_width img = None \<longrightarrow>
         declared_width img = ''0'' \<and> isdigit (declared_width img)
         \<and> int_of_digits (declared_width img) < 100"
    using default_dimension by (simp add: declared_width_def)
  have e: "\<forall>img. attr_height img = None \<longrightarrow>
         declared_height img = ''0'' \<and> isdigit (declared_height img)
         \<and> int_of_digits (declared_height img) < 100"
    using default_dimension by (simp add: declared_height_def)
  from a b c d e show ?thesis by blast
qed



theorem strategy_b_missing_dimensions_witness:
  "method2 ''cats'' 3 sample_imgs = map (img_result ''cats'') [sample_imgs ! 4, sample_imgs ! 5]
   \<and> attr_width (sample_imgs ! 3) = None \<and> attr_height (sample_imgs ! 3) = None
   \<and> attr_width (sample_imgs ! 5) = None \<and> \<not> isdigit (declared_height (sample_imgs ! 5))
   \<and> (\<exists>kept. subseq kept (take (nat (2 * 3)) sample_imgs)
       \<and> method2 ''cats'' 3 sample_imgs = map (img_result ''cats'') kept
       \<and> (\<forall>img \<in> set kept.
            \<not> (attr_width img = None \<and> attr_height img = None)
            \<and> ((isdigit (declared_width img) \<and> isdigit (declared_height img)
                  \<and> 100 \<le> int_of_digits (declared_width img)
                  \<and> 100 \<le> int_of_digits (declared_height img))
                 \<or> \<not> isdigit (declared_width img) \<or> \<not> isdigit (declared_height img))))
   \<and> declared_width (sample_imgs ! 3) = ''0''
   \<and> declared_height (sample_imgs ! 3) = ''0''"
proof -
  have ev: "method2 ''cats'' 3 sample_imgs
              = map (img_result ''cats'') [sample_imgs ! 4, sample_imgs ! 5]"
    by code_simp
  have w3: "attr_width (sample_imgs ! 3) = None" "attr_height (sample_imgs ! 3) = None"
    by (simp_all add: sample_imgs_def)
  have w5: "attr_width (sample_imgs ! 5) = None" "\<not> isdigit (declared_height (sample_imgs ! 5))"
    by (simp_all add: sample_imgs_def declared_height_def isdigit_def is_digit_def)
  from strategy_b_missing_dimensions [of 3 sample_imgs "''cats''"] ev w3 w5 show ?thesis by blast
qed


section \<open>URL normalization and the URLs of the results\<close>

lemma normalize_url_web: "web_url (normalize_url u)"
  by (auto simp: normalize_url_def web_url_def startswith_def)

lemma normalize_url_https: "startswith u ''https://'' \<Longrightarrow> normalize_url u = u"
  by (auto simp: normalize_url_def startswith_def prefix_def)

lemma normalize_url_http: "startswith u ''http://'' \<Longrightarrow> normalize_url u = u"
  by (auto simp: normalize_url_def startswith_def prefix_def)

lemma normalize_url_protocol_relative: "normalize_url (''//'' @ x) = ''https://'' @ x"
  by (simp add: normalize_url_def startswith_def)

lemma normalize_url_bare:
  "u \<noteq> [] \<Longrightarrow> \<not> startswith u ''//'' \<Longrightarrow> \<not> startswith u ''http://'' \<Longrightarrow>
     \<not> startswith u ''https://'' \<Longrightarrow> normalize_url u = ''https://'' @ u"
  by (simp add: normalize_url_def)

lemma normalize_url_idem: "normalize_url (normalize_url u) = normalize_url u"
  using normalize_url_web [of u] normalize_url_https normalize_url_http
  by (auto simp: web_url_def) (simp add: normalize_url_def)

lemma web_url_empty: "web_url []"
  by (simp add: web_url_def)

lemma normalize_json_web: "normalize_json v = Inr u \<Longrightarrow> web_url u"
  by (auto simp: normalize_json_def normalize_url_web web_url_empty
      split: if_splits json.splits)

lemma and_then_Inr: "and_then x f = Inr y \<Longrightarrow> \<exists>v. x = Inr v \<and> f v = Inr y"
  by (cases x) (auto simp: and_then_def)

lemma build_result_urls: "build_result row v = Inr r \<Longrightarrow> urls_ok r"
  unfolding build_result_def
  by (auto dest!: and_then_Inr simp: urls_ok_def dest: normalize_json_web)

lemma rows_loop_urls:
  "rows_loop m rows results cache = (e, results', cache') \<Longrightarrow>
     list_all urls_ok results \<Longrightarrow> list_all urls_ok results'"
proof (induction rows arbitrary: results cache)
  case Nil
  then show ?case by simp
next
  case (Cons row rest)
  then show ?case
    by (auto split: if_splits sum.splits dest: build_result_urls)
qed

lemma fetch_page_urls:
  "fetch_page m results cache s = (results', cache', s') \<Longrightarrow>
     list_all urls_ok results \<Longrightarrow> list_all urls_ok results'"
  by (auto simp: fetch_page_def split: prod.splits sum.splits dest: rows_loop_urls)

lemma pages_loop_urls:
  "pages_loop pages m results cache s = (results', s') \<Longrightarrow>
     list_all urls_ok results \<Longrightarrow> list_all urls_ok results'"
proof (induction pages arbitrary: results cache s)
  case Nil
  then show ?case by simp
next
  case (Cons page rest)
  then show ?case
    by (auto split: if_splits prod.splits dest: fetch_page_urls)
qed

lemma ddg_urls:
  "fst (search_duckduckgo_images kw m s) = Inr rs \<Longrightarrow> list_all urls_ok rs"
  by (auto simp: search_duckduckgo_images_def ddg_body_def simp del: pages_loop.simps
      split: prod.splits sum.splits dest!: pages_loop_urls)

lemma search_url_web: "web_url search_url"
  by (simp add: web_url_def search_url_def startswith_def)

lemma match_result_urls: "urls_ok (match_result kw m)"
  by (cases m) (simp add: match_result_def urls_ok_def normalize_url_web search_url_web)

lemma img_result_urls: "urls_ok (img_result kw img)"
  by (simp add: img_result_def urls_ok_def normalize_url_web search_url_web)

lemma match_loop_urls:
  "list_all urls_ok results \<Longrightarrow> list_all urls_ok (match_loop kw m ms results)"
  by (induction ms arbitrary: results) (auto simp: match_result_urls)

lemma script_loop_urls:
  "list_all urls_ok results \<Longrightarrow> list_all urls_ok (script_loop kw m scs results)"
  by (induction scs arbitrary: results) (auto simp: Let_def match_loop_urls)

lemma method2_urls: "list_all urls_ok (method2 kw m imgs)"
  by (simp add: method2_kept list_all_iff img_result_urls)

lemma bing_urls:
  "fst (search_bing_images kw m s) = Inr rs \<Longrightarrow> list_all urls_ok rs"
  using script_loop_urls [of "[]"] method2_urls
  by (auto simp: search_bing_images_def bing_body_def Let_def
      split: prod.splits sum.splits if_splits)

text \<open>
  Claim C7, as stated: every URL field of every result returned by either extractor is
  in absolute https-qualified form. In \<open>http_page_world\<close> the primary extractor returns
  a result whose image URL is \<open>http://x/y.jpg\<close> and whose thumbnail and page URL are
  empty: \<open>_normalize_url\<close> returns the empty string for an empty or missing value and
  leaves a URL that starts with \<open>http://\<close> as it is.
\<close>

theorem result_url_not_https_counterexample: "fst (search_duckduckgo_images ''cats'' 5 (new_api two_proxies keep_order http_page_world))
   = Inr [\<lparr>title = ''a cat'', image = ''http://x/y.jpg'', thumbnail = [], url = [],
           height = 0, width = 0, source = ''DuckDuckGo''\<rparr>]
   \<and> \<not> startswith ''http://x/y.jpg'' ''https://''
   \<and> \<not> startswith [] ''https://''"
  by code_simp

text \<open>
  Claim C7, amended: \<open>_normalize_url\<close> returns a URL that starts with \<open>https://\<close>
  unchanged and is idempotent; it maps \<open>//x/y.jpg\<close> to \<open>https://x/y.jpg\<close> and the
  bare \<open>x/y.jpg\<close> to \<open>https://x/y.jpg\<close>; and every URL field (image, thumbnail,
  page URL) of every result returned by either extractor is empty or starts with
  \<open>http://\<close> or \<open>https://\<close>.
\<close>

theorem normalize_url_and_result_urls:
  "(startswith u ''https://'' \<longrightarrow> normalize_url u = u)
   \<and> normalize_url (normalize_url u) = normalize_url u
   \<and> normalize_url (''//'' @ x) = ''https://'' @ x
   \<and> normalize_url ''//x/y.jpg'' = ''https://x/y.jpg''
   \<and> (u \<noteq> [] \<and> \<not> startswith u ''//'' \<and> \<not> startswith u ''http://''
        \<and> \<not> startswith u ''https://'' \<longrightarrow> normalize_url u = ''https://'' @ u)
   \<and> normalize_url ''x/y.jpg'' = ''https://x/y.jpg''
   \<and> (fst (search_duckduckgo_images kw m s) = Inr rs \<longrightarrow> list_all urls_ok rs)
   \<and> (fst (search_bing_images kw m s) = Inr rs \<longrightarrow> list_all urls_ok rs)"
  using normalize_url_https normalize_url_idem normalize_url_protocol_relative
    normalize_url_bare ddg_urls bing_urls
  by (auto simp: normalize_url_def startswith_def)



theorem normalize_url_and_result_urls_witness:
  "startswith ''https://x/y.jpg'' ''https://''
   \<and> normalize_url ''https://x/y.jpg'' = ''https://x/y.jpg''
   \<and> \<not> startswith ''x/y.jpg'' ''//'' \<and> \<not> startswith ''x/y.jpg'' ''http://''
   \<and> \<not> startswith ''x/y.jpg'' ''https://''
   \<and> normalize_url ''x/y.jpg'' = ''https://'' @ ''x/y.jpg''
   \<and> fst (search_duckduckgo_images ''cats'' 5 (new_api two_proxies keep_order http_page_world))
       = Inr [\<lparr>title = ''a cat'', image = ''http://x/y.jpg'', thumbnail = [], url = [],
               height = 0, width = 0, source = ''DuckDuckGo''\<rparr>]
   \<and> list_all urls_ok
        [\<lparr>title = ''a cat'', image = ''http://x/y.jpg'', thumbnail = [], url = [],
          height = 0, width = 0, source = ''DuckDuckGo''\<rparr>]
   \<and> fst (search_bing_images ''cats'' 3
            (new_api two_proxies keep_order (answer_once (img_page sample_imgs))))
       = Inr (map (img_result ''cats'') [sample_imgs ! 4, sample_imgs ! 5])
   \<and> list_all urls_ok (map (img_result ''cats'') [sample_imgs ! 4, sample_imgs ! 5])"
proof -
  have p: "startswith ''https://x/y.jpg'' ''https://''"
    "\<not> startswith ''x/y.jpg'' ''//''" "\<not> startswith ''x/y.jpg'' ''http://''"
    "\<not> startswith ''x/y.jpg'' ''https://''"
    by (simp_all add: startswith_def)
  have ddg: "fst (search_duckduckgo_images ''cats'' 5
                    (new_api two_proxies keep_order http_page_world))
       = Inr [\<lparr>title = ''a cat'', image = ''http://x/y.jpg'', thumbnail = [], url = [],
               height = 0, width = 0, source = ''DuckDuckGo''\<rparr>]"
    by code_simp
  have bing: "fst (search_bing_images ''cats'' 3
            (new_api two_proxies keep_order (answer_once (img_page sample_imgs))))
       = Inr (map (img_result ''cats'') [sample_imgs ! 4, sample_imgs ! 5])"
    by code_simp
  from normalize_url_and_result_urls [of "''https://x/y.jpg''" "''x/y.jpg''" "''cats''" 5
              "new_api two_proxies keep_order http_page_world"
              "[\<lparr>title = ''a cat'', image = ''http://x/y.jpg'', thumbnail = [], url = [],
               height = 0, width = 0, source = ''DuckDuckGo''\<rparr>]"]
       normalize_url_and_result_urls [of "''x/y.jpg''" "''x/y.jpg''" "''cats''" 3
              "new_api two_proxies keep_order (answer_once (img_page sample_imgs))"
              "map (img_result ''cats'') [sample_imgs ! 4, sample_imgs ! 5]"]
       p ddg bing
  show ?thesis by blast
qed


section \<open>SearchOrchestrator: the fallback protocol\<close>

lemma frame_refl [simp]: "frame s s"
  by (simp add: frame_def)

lemma frame_trans: "frame s s1 \<Longrightarrow> frame s1 s2 \<Longrightarrow> frame s s2"
  by (simp add: frame_def)

lemma select_proxy_frame: "select_proxy cur kw s = (r, s1) \<Longrightarrow> frame s s1"
  by (auto simp: select_proxy_def frame_def split: if_splits prod.splits sum.splits)

lemma on_request_exception_frame:
  "(case on_request_exception again cur kw e msg s of
      Retry c k s' \<Rightarrow> frame s s' | Finish r s' \<Rightarrow> frame s s' \<and> r = Inl e)"
  by (simp add: on_request_exception_def frame_def Let_def)

lemma on_proxy_error_frame:
  "(case on_proxy_error again cur kw msg s of
      Retry c k s' \<Rightarrow> frame s s' | Finish r s' \<Rightarrow> frame s s' \<and> r = Inl (ProxyError msg))"
  by (simp add: on_proxy_error_def frame_def Let_def)

lemma after_rate_check_frame:
  "(case after_rate_check again cur kw r s of
      Retry c k s' \<Rightarrow> frame s s' | Finish r s' \<Rightarrow> frame s s')"
proof (cases "raise_for_status r")
  case None
  then show ?thesis by (simp add: after_rate_check_def frame_def)
next
  case (Some msg)
  let ?s1 = "if status_code r = 200
             then s\<lparr>rate_limit_count := max 0 (rate_limit_count s - 1)\<rparr> else s"
  have "frame s ?s1" by (simp add: frame_def)
  with Some on_request_exception_frame [where again = again and cur = cur and kw = kw and e = "HTTPError msg" and msg = msg and s = ?s1]
  show ?thesis
    by (auto simp: after_rate_check_def Let_def frame_def split: attempt_result.splits)
qed

lemma on_response_frame:
  "(case on_response again cur kw r s of
      Retry c k s' \<Rightarrow> frame s s' | Finish r s' \<Rightarrow> frame s s')"
  using after_rate_check_frame [where again = again and cur = cur and kw = kw and r = r and s = s]
    after_rate_check_frame [where again = again and cur = cur and kw = kw and r = r
      and s = "mark_current cur (s\<lparr>rate_limit_count := rate_limit_count s + 1\<rparr>)"]
  by (auto simp: on_response_def Let_def frame_def split: attempt_result.splits)

lemma attempt_frame:
  "(case attempt again cur kw s of
      Retry c k s' \<Rightarrow> frame s s' | Finish r s' \<Rightarrow> frame s s')"
proof (cases "select_proxy cur kw s")
  case (Pair res s1)
  note f = select_proxy_frame [OF Pair]
  show ?thesis
  proof (cases res)
    case (Inl e)
    with Pair f show ?thesis by (simp add: attempt_def)
  next
    case (Inr ck)
    obtain cur1 kw1 where ck: "ck = (cur1, kw1)" by (cases ck)
    let ?s2 = "s1\<lparr>n_requests := Suc (n_requests s1),
                   sent := sent s1 @ [\<lparr>counter_before = rate_limit_count s, via_proxy = kw1\<rparr>]\<rparr>"
    have f2: "frame s ?s2" using f by (simp add: frame_def)
    show ?thesis
    proof (cases "upstream s1 (n_requests s1)")
      case (Responded r)
      with Pair Inr ck f2 on_response_frame [where again = again and cur = cur1 and kw = kw1 and r = r and s = ?s2] show ?thesis
        by (auto simp: attempt_def Let_def frame_def split: attempt_result.splits)
    next
      case (RaisedProxyError msg)
      with Pair Inr ck f2 on_proxy_error_frame [where again = again and cur = cur1 and kw = kw1 and msg = msg and s = ?s2] show ?thesis
        by (auto simp: attempt_def Let_def frame_def split: attempt_result.splits)
    next
      case (RaisedRequestException msg)
      with Pair Inr ck f2
        on_request_exception_frame [where again = again and cur = cur1 and kw = kw1 and e = "RequestException msg" and msg = msg and s = ?s2]
      show ?thesis
        by (auto simp: attempt_def Let_def frame_def split: attempt_result.splits)
    next
      case (RaisedOther msg)
      with Pair Inr ck f2 show ?thesis
        by (simp add: attempt_def Let_def)
    qed
  qed
qed

lemma request_loop_frame: "frame s (snd (request_loop left cur kw s))"
proof (induction left arbitrary: cur kw s)
  case 0
  then show ?case by simp
next
  case (Suc left)
  show ?case
  proof (cases "attempt (left \<noteq> 0) cur kw s")
    case (Retry c k s')
    with attempt_frame [where again = "left \<noteq> 0" and cur = cur and kw = kw and s = s] have "frame s s'" by simp
    with Suc.IH [where s = s' and cur = c and kw = k] Retry show ?thesis
      by (auto intro: frame_trans)
  next
    case (Finish r s')
    with attempt_frame [where again = "left \<noteq> 0" and cur = cur and kw = kw and s = s] show ?thesis by simp
  qed
qed

lemma make_request_frame: "frame s (snd (make_request s))"
  by (simp add: make_request_def request_loop_frame)

lemma make_request_frame': "make_request s = (r, s') \<Longrightarrow> frame s s'"
  using make_request_frame [of s] by simp

lemma fetch_page_frame: "fetch_page m results cache s = (results', cache', s') \<Longrightarrow> frame s s'"
  by (auto simp: fetch_page_def split: prod.splits sum.splits dest: make_request_frame')

lemma pages_loop_frame: "pages_loop pages m results cache s = (results', s') \<Longrightarrow> frame s s'"
proof (induction pages arbitrary: results cache s)
  case Nil
  then show ?case by simp
next
  case (Cons page rest)
  then show ?case
    by (auto split: if_splits prod.splits dest!: fetch_page_frame intro: frame_trans)
qed

lemma get_vqd_frame: "frame s (get_vqd s)"
  by (simp add: get_vqd_def make_request_frame)

lemma ddg_total: "\<exists>r s'. search_duckduckgo_images kw m s = (Inr r, s')"
  by (auto simp: search_duckduckgo_images_def split: prod.splits sum.splits)

lemma bing_total: "\<exists>r s'. search_bing_images kw m s = (Inr r, s')"
  by (auto simp: search_bing_images_def split: prod.splits sum.splits)

lemma search_images_total: "\<exists>out s'. search_images kw m s = (Inr out, s')"
proof -
  obtain r1 s1 where a: "search_duckduckgo_images kw m s = (Inr r1, s1)"
    using ddg_total by blast
  obtain r2 s2 where b: "search_bing_images kw m s1 = (Inr r2, s2)"
    using bing_total by blast
  from a b show ?thesis by (simp add: search_images_def)
qed

lemma ddg_stdout:
  "search_duckduckgo_images kw m s = (r, s') \<Longrightarrow>
     stdout s' = stdout s @ [SearchingDDG kw] \<and> upstream s' = upstream s"
proof -
  assume a: "search_duckduckgo_images kw m s = (r, s')"
  let ?s0 = "s\<lparr>stdout := stdout s @ [SearchingDDG kw]\<rparr>"
  obtain rs s1 where p: "pages_loop [0, 100] m [] {} (get_vqd ?s0) = (rs, s1)"
    by (cases "pages_loop [0, 100] m [] {} (get_vqd ?s0)")
  from a p have "s' = s1"
    by (simp add: search_duckduckgo_images_def ddg_body_def del: pages_loop.simps)
  moreover have "frame ?s0 s1"
    using get_vqd_frame [of ?s0] pages_loop_frame [OF p] by (rule frame_trans)
  ultimately show ?thesis by (simp add: frame_def)
qed

lemma bing_stdout:
  "search_bing_images kw m s = (r, s') \<Longrightarrow>
     stdout s' = stdout s @ [SearchingBing kw] \<and> upstream s' = upstream s"
proof -
  assume a: "search_bing_images kw m s = (r, s')"
  let ?s0 = "s\<lparr>stdout := stdout s @ [SearchingBing kw]\<rparr>"
  obtain x s1 where p: "make_request ?s0 = (x, s1)" by (cases "make_request ?s0")
  from a p have "s' = s1"
    by (auto simp: search_bing_images_def bing_body_def Let_def split: sum.splits)
  moreover have "frame ?s0 s1" using p by (rule make_request_frame')
  ultimately show ?thesis by (simp add: frame_def)
qed

text \<open>
  Claim C1: \<open>search_images\<close> runs the primary extractor first. If its result is not
  empty, that is the outcome with engine \<open>DuckDuckGo\<close>, and the state is the one the
  primary extractor left: the secondary extractor has not run, and one line has been
  printed. Otherwise the secondary extractor runs once, on that state; the outcome is its
  result with engine \<open>Bing\<close> if that is not empty, and the empty list with engine
  \<open>None\<close> otherwise. Each extractor prints its first line once per invocation, so
  the printed lines count the invocations.
\<close>

theorem search_images_fallback_protocol:
  assumes "search_duckduckgo_images kw m s = (Inr r1, s1)"
      and "search_bing_images kw m s1 = (Inr r2, s2)"
  shows "(r1 \<noteq> [] \<longrightarrow>
            search_images kw m s = (Inr (r1, ''DuckDuckGo''), s1)
            \<and> stdout s1 = stdout s @ [SearchingDDG kw])
       \<and> (r1 = [] \<and> r2 \<noteq> [] \<longrightarrow>
            search_images kw m s = (Inr (r2, ''Bing''), s2)
            \<and> stdout s2 = stdout s @ [SearchingDDG kw, SearchingBing kw])
       \<and> (r1 = [] \<and> r2 = [] \<longrightarrow>
            search_images kw m s = (Inr ([], ''None''), s2)
            \<and> stdout s2 = stdout s @ [SearchingDDG kw, SearchingBing kw])"
  using assms ddg_stdout [OF assms(1)] bing_stdout [OF assms(2)]
  by (simp add: search_images_def)



theorem search_images_fallback_protocol_witness:
  "fst (search_images ''cats'' 5 (new_api two_proxies keep_order http_page_world))
     = Inr ([\<lparr>title = ''a cat'', image = ''http://x/y.jpg'', thumbnail = [], url = [],
               height = 0, width = 0, source = ''DuckDuckGo''\<rparr>], ''DuckDuckGo'')
   \<and> stdout (snd (search_images ''cats'' 5 (new_api two_proxies keep_order http_page_world)))
     = [SearchingDDG ''cats'']
   \<and> fst (search_images ''cats'' 3 (new_api two_proxies keep_order fallback_world))
     = Inr (map (img_result ''cats'') [sample_imgs ! 4, sample_imgs ! 5], ''Bing'')
   \<and> stdout (snd (search_images ''cats'' 3 (new_api two_proxies keep_order fallback_world)))
     = [SearchingDDG ''cats'', SearchingBing ''cats'']
   \<and> fst (search_images ''cats'' 5 (new_api two_proxies keep_order dead_world))
     = Inr ([], ''None'')
   \<and> stdout (snd (search_images ''cats'' 5 (new_api two_proxies keep_order dead_world)))
     = [SearchingDDG ''cats'', SearchingBing ''cats'']"
proof -
  let ?W1 = "new_api two_proxies keep_order http_page_world"
  let ?W2 = "new_api two_proxies keep_order fallback_world"
  let ?W3 = "new_api two_proxies keep_order dead_world"
  let ?R = "\<lparr>title = ''a cat'', image = ''http://x/y.jpg'', thumbnail = [], url = [],
               height = 0, width = 0, source = ''DuckDuckGo''\<rparr>"
  have out0: "stdout (new_api src shf up) = []" for src shf up
    by (simp add: new_api_def)
  have e1: "fst (search_duckduckgo_images ''cats'' 5 ?W1) = Inr [?R]"
    by code_simp
  then have a1: "search_duckduckgo_images ''cats'' 5 ?W1
                  = (Inr [?R], snd (search_duckduckgo_images ''cats'' 5 ?W1))"
    by (simp add: prod_eq_iff)
  obtain r2 s2 where b1:
    "search_bing_images ''cats'' 5 (snd (search_duckduckgo_images ''cats'' 5 ?W1)) = (Inr r2, s2)"
    using bing_total by blast
  from search_images_fallback_protocol [OF a1 b1] have c1:
    "fst (search_images ''cats'' 5 ?W1) = Inr ([?R], ''DuckDuckGo'')
     \<and> stdout (snd (search_images ''cats'' 5 ?W1)) = [SearchingDDG ''cats'']"
    by (simp add: out0)
  have e2: "fst (search_duckduckgo_images ''cats'' 3 ?W2) = Inr []"
    by code_simp
  then have a2: "search_duckduckgo_images ''cats'' 3 ?W2
                  = (Inr [], snd (search_duckduckgo_images ''cats'' 3 ?W2))"
    by (simp add: prod_eq_iff)
  have "fst (search_bing_images ''cats'' 3 (snd (search_duckduckgo_images ''cats'' 3 ?W2)))
          = Inr (map (img_result ''cats'') [sample_imgs ! 4, sample_imgs ! 5])"
    by code_simp
  then have b2: "search_bing_images ''cats'' 3 (snd (search_duckduckgo_images ''cats'' 3 ?W2))
          = (Inr (map (img_result ''cats'') [sample_imgs ! 4, sample_imgs ! 5]),
             snd (search_bing_images ''cats'' 3 (snd (search_duckduckgo_images ''cats'' 3 ?W2))))"
    by (simp add: prod_eq_iff)
  from search_images_fallback_protocol [OF a2 b2] have c2:
    "fst (search_images ''cats'' 3 ?W2)
       = Inr (map (img_result ''cats'') [sample_imgs ! 4, sample_imgs ! 5], ''Bing'')
     \<and> stdout (snd (search_images ''cats'' 3 ?W2)) = [SearchingDDG ''cats'', SearchingBing ''cats'']"
    by (simp add: out0)
  have e3: "fst (search_duckduckgo_images ''cats'' 5 ?W3) = Inr []"
    by code_simp
  then have a3: "search_duckduckgo_images ''cats'' 5 ?W3
                  = (Inr [], snd (search_duckduckgo_images ''cats'' 5 ?W3))"
    by (simp add: prod_eq_iff)
  have "fst (search_bing_images ''cats'' 5 (snd (search_duckduckgo_images ''cats'' 5 ?W3)))
          = Inr []"
    by code_simp
  then have b3: "search_bing_images ''cats'' 5 (snd (search_duckduckgo_images ''cats'' 5 ?W3))
          = (Inr [],
             snd (search_bing_images ''cats'' 5 (snd (search_duckduckgo_images ''cats'' 5 ?W3))))"
    by (simp add: prod_eq_iff)
  from search_images_fallback_protocol [OF a3 b3] have c3:
    "fst (search_images ''cats'' 5 ?W3) = Inr ([], ''None'')
     \<and> stdout (snd (search_images ''cats'' 5 ?W3)) = [SearchingDDG ''cats'', SearchingBing ''cats'']"
    by (simp add: out0)
  from c1 c2 c3 show ?thesis by blast
qed


section \<open>SearchOrchestrator: no exception reaches the caller\<close>

lemma never_answers_cases:
  "never_answers up \<Longrightarrow> up k \<noteq> Responded r"
  by (auto simp: never_answers_def split: http_outcome.splits dest: spec [where x = k])

lemma attempt_no_answer:
  assumes "never_answers (upstream s)"
  shows "(case attempt again cur kw s of
            Retry c k s' \<Rightarrow> True | Finish r s' \<Rightarrow> \<exists>e. r = Inl e)"
proof (cases "select_proxy cur kw s")
  case (Pair res s1)
  note f = select_proxy_frame [OF Pair]
  show ?thesis
  proof (cases res)
    case (Inl e)
    with Pair show ?thesis by (simp add: attempt_def)
  next
    case (Inr ck)
    obtain cur1 kw1 where ck: "ck = (cur1, kw1)" by (cases ck)
    let ?s2 = "s1\<lparr>n_requests := Suc (n_requests s1),
                   sent := sent s1 @ [\<lparr>counter_before = rate_limit_count s, via_proxy = kw1\<rparr>]\<rparr>"
    have up: "upstream s1 = upstream s" using f by (simp add: frame_def)
    show ?thesis
    proof (cases "upstream s1 (n_requests s1)")
      case (Responded r)
      with never_answers_cases [OF assms, of "n_requests s1" r] up show ?thesis by simp
    next
      case (RaisedProxyError msg)
      with Pair Inr ck
        on_proxy_error_frame [where again = again and cur = cur1 and kw = kw1
          and msg = msg and s = ?s2]
      show ?thesis
        by (auto simp: attempt_def Let_def split: attempt_result.splits)
    next
      case (RaisedRequestException msg)
      with Pair Inr ck
        on_request_exception_frame [where again = again and cur = cur1 and kw = kw1
          and e = "RequestException msg" and msg = msg and s = ?s2]
      show ?thesis
        by (auto simp: attempt_def Let_def split: attempt_result.splits)
    next
      case (RaisedOther msg)
      with Pair Inr ck show ?thesis
        by (simp add: attempt_def Let_def)
    qed
  qed
qed

lemma request_loop_no_answer:
  "never_answers (upstream s) \<Longrightarrow> \<exists>e. fst (request_loop left cur kw s) = Inl e"
proof (induction left arbitrary: cur kw s)
  case 0
  then show ?case by simp
next
  case (Suc left)
  show ?case
  proof (cases "attempt (left \<noteq> 0) cur kw s")
    case (Retry c k s')
    with attempt_frame [where again = "left \<noteq> 0" and cur = cur and kw = kw and s = s]
    have "upstream s' = upstream s" by (simp add: frame_def)
    with Suc.prems have "never_answers (upstream s')" by simp
    from Suc.IH [OF this, of c k] Retry show ?thesis by simp
  next
    case (Finish r s')
    with attempt_no_answer [OF Suc.prems, of "left \<noteq> 0" cur kw] show ?thesis by auto
  qed
qed

lemma make_request_no_answer:
  "never_answers (upstream s) \<Longrightarrow> \<exists>e s'. make_request s = (Inl e, s')"
  using request_loop_no_answer [of s 3 None None]
  by (cases "make_request s") (auto simp: make_request_def)

lemma fetch_page_no_answer:
  "never_answers (upstream s) \<Longrightarrow> fst (fetch_page m results cache s) = results"
  using make_request_no_answer [of s] by (auto simp: fetch_page_def)

lemma pages_loop_no_answer:
  "never_answers (upstream s) \<Longrightarrow> fst (pages_loop pages m results cache s) = results"
proof (induction pages arbitrary: s)
  case Nil
  then show ?case by simp
next
  case (Cons page rest)
  show ?case
  proof (cases "fetch_page m results cache s")
    case (fields results1 cache1 s1)
    from fetch_page_no_answer [OF Cons.prems, of m results cache] fields
    have r: "results1 = results" by simp
    from make_request_no_answer [OF Cons.prems] fields have c: "cache1 = cache"
      by (auto simp: fetch_page_def)
    from fetch_page_frame [OF fields] Cons.prems have "never_answers (upstream s1)"
      by (simp add: frame_def)
    from Cons.IH [OF this] fields r c show ?thesis by simp
  qed
qed

lemma ddg_no_answer:
  "never_answers (upstream s) \<Longrightarrow> fst (search_duckduckgo_images kw m s) = Inr []"
proof -
  assume a: "never_answers (upstream s)"
  let ?s0 = "s\<lparr>stdout := stdout s @ [SearchingDDG kw]\<rparr>"
  have "upstream (get_vqd ?s0) = upstream s"
    using get_vqd_frame [of ?s0] by (simp add: frame_def)
  with a have "never_answers (upstream (get_vqd ?s0))" by simp
  from pages_loop_no_answer [OF this, of "[0, 100]" m "[]" "{}"] show ?thesis
    by (cases "pages_loop [0, 100] m [] {} (get_vqd ?s0)")
       (simp add: search_duckduckgo_images_def ddg_body_def del: pages_loop.simps)
qed

lemma bing_no_answer:
  "never_answers (upstream s) \<Longrightarrow> fst (search_bing_images kw m s) = Inr []"
proof -
  assume a: "never_answers (upstream s)"
  let ?s0 = "s\<lparr>stdout := stdout s @ [SearchingBing kw]\<rparr>"
  from a have "never_answers (upstream ?s0)" by simp
  from make_request_no_answer [OF this] show ?thesis
    by (auto simp: search_bing_images_def bing_body_def)
qed

lemma search_images_no_answer:
  assumes "never_answers (upstream s)"
  shows "fst (search_images kw m s) = Inr ([], ''None'')"
proof -
  obtain r1 s1 where a: "search_duckduckgo_images kw m s = (Inr r1, s1)"
    using ddg_total by blast
  obtain r2 s2 where b: "search_bing_images kw m s1 = (Inr r2, s2)"
    using bing_total by blast
  from ddg_no_answer [OF assms, of kw m] a have r1: "r1 = []" by simp
  from ddg_stdout [OF a] assms have "never_answers (upstream s1)" by simp
  from bing_no_answer [OF this, of kw m] b have r2: "r2 = []" by simp
  from a b r1 r2 show ?thesis by (simp add: search_images_def)
qed

lemma bing_body_failure:
  "fst (bing_body kw m (s\<lparr>stdout := stdout s @ [SearchingBing kw]\<rparr>)) = Inl e \<Longrightarrow>
     fst (search_bing_images kw m s) = Inr []"
  by (auto simp: search_bing_images_def split: prod.splits sum.splits)

lemma rows_loop_prefix:
  "rows_loop m rows results cache = (e, results', cache') \<Longrightarrow> prefix results results'"
proof (induction rows arbitrary: results cache)
  case Nil
  then show ?case by simp
next
  case (Cons row rest)
  then show ?case
    by (auto split: if_splits sum.splits dest: append_prefixD)
qed

lemma fetch_page_prefix: "prefix results (fst (fetch_page m results cache s))"
  by (auto simp: fetch_page_def split: prod.splits sum.splits dest: rows_loop_prefix)

text \<open>
  Claim C2: in every outside world \<open>search_images\<close> returns an outcome and raises
  nothing, and so do both extractors; a page of the primary provider whose request or
  parsing fails leaves the results collected so far in place; a failure in the body of
  the secondary extractor gives the empty list; and when no request is ever answered
  the outcome is the empty list with engine \<open>None\<close>.
\<close>

theorem search_images_never_raises:
  "(\<exists>out s'. search_images kw m s = (Inr out, s'))
   \<and> (\<exists>r s'. search_duckduckgo_images kw m s = (Inr r, s'))
   \<and> (\<exists>r s'. search_bing_images kw m s = (Inr r, s'))
   \<and> prefix results (fst (fetch_page m results cache s))
   \<and> (fst (bing_body kw m (s\<lparr>stdout := stdout s @ [SearchingBing kw]\<rparr>)) = Inl e \<longrightarrow>
         fst (search_bing_images kw m s) = Inr [])
   \<and> (never_answers (upstream s) \<longrightarrow> fst (search_images kw m s) = Inr ([], ''None''))"
  using search_images_total ddg_total bing_total fetch_page_prefix bing_body_failure
    search_images_no_answer
  by blast



theorem search_images_never_raises_witness:
  "never_answers (upstream (new_api two_proxies keep_order dead_world))
   \<and> fst (search_images ''cats'' 5 (new_api two_proxies keep_order dead_world))
       = Inr ([], ''None'')
   \<and> fst (bing_body ''cats'' 5
        ((new_api two_proxies keep_order dead_world)
           \<lparr>stdout := stdout (new_api two_proxies keep_order dead_world)
                        @ [SearchingBing ''cats'']\<rparr>))
       = Inl (RequestException ''connection refused'')
   \<and> fst (search_bing_images ''cats'' 5 (new_api two_proxies keep_order dead_world)) = Inr []
   \<and> (\<exists>out s'. search_images ''cats'' 5 (new_api two_proxies keep_order dead_world)
                    = (Inr out, s'))"
proof -
  let ?W = "new_api two_proxies keep_order dead_world"
  have n: "never_answers (upstream ?W)"
    by (simp add: never_answers_def new_api_def dead_world_def script_def)
  have b: "fst (bing_body ''cats'' 5 (?W\<lparr>stdout := stdout ?W @ [SearchingBing ''cats'']\<rparr>))
             = Inl (RequestException ''connection refused'')"
    by code_simp
  from search_images_never_raises [of "''cats''" 5 ?W "[]" "{}" "RequestException ''connection refused''"] n b
  show ?thesis by blast
qed


section \<open>PrimaryExtractor: limit, skipped entries and order\<close>

lemma rows_loop_picked:
  "rows_loop m rows results cache = (e, results', cache') \<Longrightarrow>
   \<exists>picked. subseq picked rows \<and> map Inr results' = map Inr results @ map built picked
      \<and> (\<forall>row \<in> set picked. truthy_json (raw_image row) \<and> hash_key (raw_image row) \<notin> cache)
      \<and> distinct (map (\<lambda>row. hash_key (raw_image row)) picked)
      \<and> cache \<union> (\<lambda>row. hash_key (raw_image row)) ` set picked \<subseteq> cache'"
proof (induction rows arbitrary: results cache)
  case Nil
  then show ?case by simp
next
  case (Cons row rest)
  show ?case
  proof (cases "int (length results) \<ge> m")
    case True
    with Cons.prems show ?thesis by simp
  next
    case lim: False
    show ?thesis
    proof (cases "py_get row ''image'' JNull")
      case (Inl x)
      with lim Cons.prems show ?thesis by simp
    next
      case (Inr u)
      then have raw: "raw_image row = u" by (simp add: raw_image_def)
      consider (skip) "\<not> truthy_json u \<or> (hashable u \<and> hash_key u \<in> cache)"
        | (unhash) "truthy_json u" "\<not> hashable u"
        | (fail) x where "truthy_json u" "hashable u" "hash_key u \<notin> cache"
            "build_result row u = Inl x"
        | (ok) r where "truthy_json u" "hashable u" "hash_key u \<notin> cache"
            "build_result row u = Inr r"
        by (cases "build_result row u") auto
      then show ?thesis
      proof cases
        case skip
        with lim Inr Cons.prems have "rows_loop m rest results cache = (e, results', cache')"
          by (auto split: if_splits)
        from Cons.IH [OF this] obtain picked where
          "subseq picked rest" "map Inr results' = map Inr results @ map built picked"
          "\<forall>row \<in> set picked. truthy_json (raw_image row) \<and> hash_key (raw_image row) \<notin> cache"
          "distinct (map (\<lambda>row. hash_key (raw_image row)) picked)"
          "cache \<union> (\<lambda>row. hash_key (raw_image row)) ` set picked \<subseteq> cache'"
          by blast
        then show ?thesis by (intro exI [of _ picked]) auto
      next
        case unhash
        with lim Inr Cons.prems show ?thesis by simp
      next
        case fail
        with lim Inr Cons.prems show ?thesis by auto
      next
        case ok
        with lim Inr Cons.prems
        have "rows_loop m rest (results @ [r]) (insert (hash_key u) cache) = (e, results', cache')"
          by simp
        from Cons.IH [OF this] obtain picked where p:
          "subseq picked rest" "map Inr results' = map Inr (results @ [r]) @ map built picked"
          "\<forall>row \<in> set picked. truthy_json (raw_image row)
              \<and> hash_key (raw_image row) \<notin> insert (hash_key u) cache"
          "distinct (map (\<lambda>row. hash_key (raw_image row)) picked)"
          "insert (hash_key u) cache \<union> (\<lambda>row. hash_key (raw_image row)) ` set picked \<subseteq> cache'"
          by blast
        have b: "built row = Inr r" using ok raw by (simp add: built_def)
        show ?thesis
          using p ok raw b by (intro exI [of _ "row # picked"]) auto
      qed
    qed
  qed
qed

lemma rows_loop_bound:
  "rows_loop m rows results cache = (e, results', cache') \<Longrightarrow>
   int (length results') \<le> max m (int (length results))"
proof (induction rows arbitrary: results cache)
  case Nil
  then show ?case by simp
next
  case (Cons row rest)
  then show ?case
    by (fastforce split: if_splits sum.splits)
qed

lemma fetch_page_eq:
  "fetch_page m results cache s =
     (case rows_loop m (entries (fst (page_of s))) results cache of
        (e, r1, c1) \<Rightarrow> (r1, c1, snd (page_of s)))"
  by (simp add: fetch_page_def page_of_def entries_def split: prod.splits sum.splits)

lemma pages_two:
  "pages_loop [0, 100] m [] {} s0 =
     (if m \<le> 0 then ([], s0)
      else case rows_loop m (entries (fst (page_of s0))) [] {} of
        (e1, r1, c1) \<Rightarrow>
          if int (length r1) \<ge> m then (r1, snd (page_of s0))
          else case rows_loop m (entries (fst (page_of (snd (page_of s0))))) r1 c1 of
                 (e2, r2, c2) \<Rightarrow> (r2, snd (page_of (snd (page_of s0)))))"
  by (simp add: fetch_page_eq split: prod.splits)

lemma ddg_eq:
  "search_duckduckgo_images kw m s =
     (case pages_loop [0, 100] m [] {} (get_vqd (s\<lparr>stdout := stdout s @ [SearchingDDG kw]\<rparr>)) of
        (results, s1) \<Rightarrow> (Inr results, s1))"
  by (simp add: search_duckduckgo_images_def ddg_body_def split: prod.splits)

lemma offered_eq:
  "offered kw s =
     entries (fst (page_of (get_vqd (s\<lparr>stdout := stdout s @ [SearchingDDG kw]\<rparr>))))
     @ entries (fst (page_of (snd (page_of (get_vqd (s\<lparr>stdout := stdout s @ [SearchingDDG kw]\<rparr>))))))"
  by (simp add: offered_def ddg_pages_def split: prod.splits)

lemma ddg_bound:
  "search_duckduckgo_images kw m s = (Inr results, s') \<Longrightarrow> int (length results) \<le> max 0 m"
  unfolding ddg_eq pages_two
  by (auto split: prod.splits if_splits dest!: rows_loop_bound)

lemma built_well_formed:
  assumes "built row = Inr r" "truthy_json (raw_image row)"
  shows "well_formed row \<and> hash_key (raw_image row) = JStr (image_str row)"
proof -
  from assms(1) obtain img where "normalize_json (raw_image row) = Inr img"
    by (auto simp: built_def build_result_def and_then_def split: sum.splits)
  with assms(2) obtain u where u: "raw_image row = JStr u"
    by (auto simp: normalize_json_def split: json.splits)
  with assms have "u \<noteq> []" by (simp add: truthy_json_def)
  with u assms(1) show ?thesis
    by (simp add: well_formed_def image_str_def hash_key_def)
qed

lemma picked_well_formed:
  assumes "map Inr results = map built picked"
    "\<forall>row \<in> set picked. truthy_json (raw_image row)"
    "distinct (map (\<lambda>row. hash_key (raw_image row)) picked)"
  shows "list_all well_formed picked \<and> distinct (map image_str picked)"
proof -
  have b: "\<exists>r. built row = Inr r" if "row \<in> set picked" for row
  proof -
    from that obtain i where i: "i < length picked" "picked ! i = row"
      by (auto simp: in_set_conv_nth)
    from assms(1) have "length results = length picked"
      by (metis length_map)
    with i assms(1) have "Inr (results ! i) = built row"
      by (metis nth_map)
    then show ?thesis by metis
  qed
  have w: "well_formed row \<and> hash_key (raw_image row) = JStr (image_str row)"
    if "row \<in> set picked" for row
    using b [OF that] assms(2) that built_well_formed by blast
  then have "map (\<lambda>row. hash_key (raw_image row)) picked = map JStr (map image_str picked)"
    by simp
  with assms(3) have "distinct (map JStr (map image_str picked))" by simp
  then have "distinct (map image_str picked)" by (simp only: distinct_map)
  with w show ?thesis by (simp add: list_all_iff)
qed

lemma ddg_picked:
  assumes "search_duckduckgo_images kw m s = (Inr results, s')"
  shows "\<exists>picked. subseq picked (offered kw s) \<and> map Inr results = map built picked
           \<and> list_all well_formed picked \<and> distinct (map image_str picked)"
proof -
  let ?s0 = "get_vqd (s\<lparr>stdout := stdout s @ [SearchingDDG kw]\<rparr>)"
  let ?rows1 = "entries (fst (page_of ?s0))"
  let ?rows2 = "entries (fst (page_of (snd (page_of ?s0))))"
  let ?key = "\<lambda>row. hash_key (raw_image row)"
  have off: "offered kw s = ?rows1 @ ?rows2" by (rule offered_eq)
  have "\<exists>picked. subseq picked (offered kw s) \<and> map Inr results = map built picked
           \<and> (\<forall>row \<in> set picked. truthy_json (raw_image row))
           \<and> distinct (map ?key picked)"
  proof (cases "m \<le> 0")
    case True
    with assms have "results = []" by (simp add: ddg_eq pages_two del: pages_loop.simps)
    then show ?thesis by (intro exI [of _ "[]"]) simp
  next
    case pos: False
    obtain e1 r1 c1 where l1: "rows_loop m ?rows1 [] {} = (e1, r1, c1)"
      by (cases "rows_loop m ?rows1 [] {}") auto
    from rows_loop_picked [OF l1] obtain p1 where p1:
      "subseq p1 ?rows1" "map Inr r1 = map built p1"
      "\<forall>row \<in> set p1. truthy_json (raw_image row)"
      "distinct (map ?key p1)" "?key ` set p1 \<subseteq> c1"
      by auto
    show ?thesis
    proof (cases "int (length r1) \<ge> m")
      case True
      with assms pos l1 have "results = r1"
        by (simp add: ddg_eq pages_two del: pages_loop.simps)
      moreover have "subseq p1 (?rows1 @ ?rows2)"
        using list_emb_append_mono [OF p1(1), of "[]" ?rows2] by simp
      ultimately show ?thesis
        using p1 off by (intro exI [of _ p1]) simp
    next
      case False
      obtain e2 r2 c2 where l2: "rows_loop m ?rows2 r1 c1 = (e2, r2, c2)"
        by (cases "rows_loop m ?rows2 r1 c1") auto
      from rows_loop_picked [OF l2] obtain p2 where p2:
        "subseq p2 ?rows2" "map Inr r2 = map Inr r1 @ map built p2"
        "\<forall>row \<in> set p2. truthy_json (raw_image row) \<and> ?key row \<notin> c1"
        "distinct (map ?key p2)"
        by auto
      from assms pos l1 l2 False have "results = r2"
        by (simp add: ddg_eq pages_two del: pages_loop.simps)
      moreover have "subseq (p1 @ p2) (?rows1 @ ?rows2)"
        using list_emb_append_mono [OF p1(1) p2(1)] .
      moreover have "distinct (map ?key (p1 @ p2))"
        using p1(4,5) p2(3,4) by auto
      ultimately show ?thesis
        using p1 p2 off by (intro exI [of _ "p1 @ p2"]) auto
    qed
  qed
  then obtain picked where p: "subseq picked (offered kw s)" "map Inr results = map built picked"
    "\<forall>row \<in> set picked. truthy_json (raw_image row)" "distinct (map ?key picked)"
    by blast
  from picked_well_formed [OF p(2,3,4)] p(1,2) show ?thesis by blast
qed

lemma is_entryD:
  assumes "is_entry row"
  shows "py_get row ''image'' JNull = Inr (raw_image row)"
    and "image_str row = [] \<Longrightarrow> \<not> truthy_json (raw_image row)"
    and "image_str row \<noteq> [] \<Longrightarrow> raw_image row = JStr (image_str row)"
proof -
  from assms obtain kvs where "row = JObj kvs"
    by (auto simp: is_entry_def split: json.splits)
  then show "py_get row ''image'' JNull = Inr (raw_image row)"
    by (simp add: raw_image_def py_get_def)
  from assms have "raw_image row = JNull \<or> raw_image row = JStr (image_str row)"
    by (auto simp: is_entry_def image_str_def split: json.splits)
  then show "image_str row = [] \<Longrightarrow> \<not> truthy_json (raw_image row)"
    "image_str row \<noteq> [] \<Longrightarrow> raw_image row = JStr (image_str row)"
    by (auto simp: truthy_json_def image_str_def)
qed

lemma rows_loop_kept:
  assumes "list_all is_entry rows" "list_all builds (kept_entries seen rows)"
  shows "\<exists>results' cache'. rows_loop m rows results (JStr ` seen) = (None, results', cache')
     \<and> map Inr results' = map Inr results
          @ take (nat (m - int (length results))) (map built (kept_entries seen rows))
     \<and> (int (length results') < m \<longrightarrow>
          cache' = JStr ` (seen \<union> image_str ` set (kept_entries seen rows)))"
  using assms
proof (induction rows arbitrary: results seen)
  case Nil
  then show ?case by simp
next
  case (Cons row rest)
  from Cons.prems(1) have ent: "is_entry row" and rest: "list_all is_entry rest" by simp_all
  note d = is_entryD [OF ent]
  show ?case
  proof (cases "int (length results) \<ge> m")
    case True
    then show ?thesis by simp
  next
    case lim: False
    show ?thesis
    proof (cases "image_str row = [] \<or> image_str row \<in> seen")
      case True
      with Cons.prems(2) have k: "kept_entries seen (row # rest) = kept_entries seen rest"
        "list_all builds (kept_entries seen rest)" by simp_all
      have "rows_loop m (row # rest) results (JStr ` seen)
              = rows_loop m rest results (JStr ` seen)"
      proof (cases "image_str row = []")
        case True
        with lim d(1) d(2) show ?thesis by simp
      next
        case False
        with True have "image_str row \<in> seen" by simp
        with False lim d(1) d(3) show ?thesis
          by (simp add: hash_key_def hashable_def)
      qed
      with Cons.IH [OF rest k(2), of results] k(1) show ?thesis by simp
    next
      case False
      then have u: "image_str row \<noteq> []" "image_str row \<notin> seen" by simp_all
      let ?u = "image_str row"
      from u have k: "kept_entries seen (row # rest) = row # kept_entries (insert ?u seen) rest"
        by simp
      with Cons.prems(2) have b: "builds row"
        "list_all builds (kept_entries (insert ?u seen) rest)" by simp_all
      from b(1) obtain r where r: "built row = Inr r"
        by (auto simp: builds_def split: sum.splits)
      with d(3) u have br: "build_result row (JStr ?u) = Inr r" by (simp add: built_def)
      have notin: "JStr ?u \<notin> JStr ` seen" using u by auto
      have step: "rows_loop m (row # rest) results (JStr ` seen)
                    = rows_loop m rest (results @ [r]) (JStr ` insert ?u seen)"
        using lim d(1) d(3) u br notin
        by (simp add: hash_key_def hashable_def truthy_json_def)
      from Cons.IH [OF rest b(2), of "results @ [r]"] obtain results' cache' where ih:
        "rows_loop m rest (results @ [r]) (JStr ` insert ?u seen) = (None, results', cache')"
        "map Inr results' = map Inr (results @ [r])
            @ take (nat (m - int (length (results @ [r]))))
                (map built (kept_entries (insert ?u seen) rest))"
        "int (length results') < m \<longrightarrow>
           cache' = JStr ` (insert ?u seen \<union> image_str ` set (kept_entries (insert ?u seen) rest))"
        by blast
      from lim have "nat (m - int (length results))
                       = Suc (nat (m - int (length (results @ [r]))))"
        by simp
      with ih(2) r k have "map Inr results' = map Inr results
          @ take (nat (m - int (length results))) (map built (kept_entries seen (row # rest)))"
        by simp
      moreover from ih(3) k have "int (length results') < m \<longrightarrow>
          cache' = JStr ` (seen \<union> image_str ` set (kept_entries seen (row # rest)))"
        by simp
      ultimately show ?thesis using step ih(1) by simp
    qed
  qed
qed

lemma kept_entries_append:
  "kept_entries seen (xs @ ys)
     = kept_entries seen xs @ kept_entries (seen \<union> image_str ` set (kept_entries seen xs)) ys"
proof (induction xs arbitrary: seen)
  case Nil
  then show ?case by simp
next
  case (Cons x xs)
  show ?case
  proof (cases "image_str x = [] \<or> image_str x \<in> seen")
    case True
    with Cons.IH [of seen] show ?thesis by simp
  next
    case False
    with Cons.IH [of "insert (image_str x) seen"] show ?thesis by simp
  qed
qed

lemma ddg_kept:
  assumes ent: "list_all is_entry (offered kw s)"
    and bld: "list_all builds (kept_entries {} (offered kw s))"
  shows "map Inr (projr (fst (search_duckduckgo_images kw m s)))
           = take (nat m) (map built (kept_entries {} (offered kw s)))"
proof -
  let ?s0 = "get_vqd (s\<lparr>stdout := stdout s @ [SearchingDDG kw]\<rparr>)"
  let ?rows1 = "entries (fst (page_of ?s0))"
  let ?rows2 = "entries (fst (page_of (snd (page_of ?s0))))"
  let ?K1 = "kept_entries {} ?rows1"
  let ?K2 = "kept_entries (image_str ` set ?K1) ?rows2"
  have off: "offered kw s = ?rows1 @ ?rows2" by (rule offered_eq)
  have K: "kept_entries {} (offered kw s) = ?K1 @ ?K2"
    by (simp add: off kept_entries_append)
  from ent off have e1: "list_all is_entry ?rows1" and e2: "list_all is_entry ?rows2"
    by simp_all
  from bld K have b1: "list_all builds ?K1" and b2: "list_all builds ?K2" by simp_all
  show ?thesis
  proof (cases "m \<le> 0")
    case True
    then show ?thesis by (simp add: ddg_eq pages_two del: pages_loop.simps)
  next
    case pos: False
    from rows_loop_kept [OF e1 b1, of m "[]"] obtain r1 c1 where
      l1: "rows_loop m ?rows1 [] {} = (None, r1, c1)"
        "map Inr r1 = take (nat m) (map built ?K1)"
        "int (length r1) < m \<longrightarrow> c1 = JStr ` image_str ` set ?K1"
      by auto
    from l1(2) have len1: "length r1 = min (length ?K1) (nat m)"
      by (metis length_map length_take)
    show ?thesis
    proof (cases "int (length r1) \<ge> m")
      case True
      with len1 have "nat m \<le> length ?K1" by linarith
      with True pos l1 K show ?thesis
        by (simp add: ddg_eq pages_two del: pages_loop.simps)
    next
      case False
      with len1 have short: "length ?K1 < nat m" "length r1 = length ?K1" by linarith+
      from False l1(3) have c1: "c1 = JStr ` image_str ` set ?K1" by simp
      from rows_loop_kept [OF e2 b2, of m r1] c1 obtain r2 c2 where
        l2: "rows_loop m ?rows2 r1 c1 = (None, r2, c2)"
          "map Inr r2 = map Inr r1 @ take (nat (m - int (length r1))) (map built ?K2)"
        by auto
      have "nat (m - int (length r1)) = nat m - length ?K1" using short by linarith
      with l2(2) l1(2) short have "map Inr r2 = take (nat m) (map built (?K1 @ ?K2))"
        by simp
      with False pos l1 l2 K show ?thesis
        by (simp add: ddg_eq pages_two del: pages_loop.simps)
    qed
  qed
qed

lemma well_formedD:
  assumes "well_formed row"
  obtains u r where "py_get row ''image'' JNull = Inr (JStr u)" "u \<noteq> []"
    "raw_image row = JStr u" "image_str row = u" "built row = Inr r"
    "build_result row (JStr u) = Inr r"
proof -
  from assms obtain u where u: "raw_image row = JStr u" "u \<noteq> []"
    by (auto simp: well_formed_def split: json.splits)
  from assms u obtain r where r: "built row = Inr r"
    by (auto simp: well_formed_def split: sum.splits)
  from u have "py_get row ''image'' JNull = Inr (JStr u)"
    by (auto simp: raw_image_def split: sum.splits)
  with u r that show thesis by (simp add: image_str_def built_def)
qed

lemma well_formed_entry: "well_formed row \<Longrightarrow> is_entry row \<and> builds row \<and> image_str row \<noteq> []"
proof -
  assume w: "well_formed row"
  then obtain u r where *: "py_get row ''image'' JNull = Inr (JStr u)" "u \<noteq> []"
    "raw_image row = JStr u" "image_str row = u" "built row = Inr r"
    by (rule well_formedD)
  from *(1) obtain kvs where "row = JObj kvs"
    by (cases row) (simp_all add: py_get_def)
  with * show ?thesis by (simp add: is_entry_def builds_def)
qed

lemma kept_entries_all:
  "list_all well_formed rows \<Longrightarrow> distinct (map image_str rows) \<Longrightarrow>
   image_str ` set rows \<inter> seen = {} \<Longrightarrow> kept_entries seen rows = rows"
proof (induction rows arbitrary: seen)
  case Nil
  then show ?case by simp
next
  case (Cons row rest)
  from Cons.prems(1) have "image_str row \<noteq> []" using well_formed_entry by simp
  moreover from Cons.prems(3) have "image_str row \<notin> seen" by auto
  moreover have "kept_entries (insert (image_str row) seen) rest = rest"
    using Cons.prems by (intro Cons.IH) auto
  ultimately show ?case by simp
qed

lemma ddg_all:
  assumes pg: "ddg_pages kw s = (Some rows1, Some rows2)"
    and wf: "list_all well_formed (rows1 @ rows2)"
    and di: "distinct (map image_str (rows1 @ rows2))"
  shows "map Inr (projr (fst (search_duckduckgo_images kw m s)))
           = take (nat m) (map built (rows1 @ rows2))"
proof -
  from pg have off: "offered kw s = rows1 @ rows2"
    by (simp add: offered_def entries_def)
  from kept_entries_all [OF wf di, of "{}"] have k: "kept_entries {} (rows1 @ rows2) = rows1 @ rows2"
    by simp
  from wf have "list_all is_entry (rows1 @ rows2)" "list_all builds (rows1 @ rows2)"
    using well_formed_entry by (auto simp: list_all_iff)
  with ddg_kept [of kw s m] off k show ?thesis by simp
qed

lemma build_result_image:
  "build_result row (JStr u) = Inr r \<Longrightarrow> u \<noteq> [] \<Longrightarrow> image r = normalize_url u"
  by (auto simp: build_result_def and_then_def normalize_json_def truthy_json_def
      split: sum.splits)

lemma built_images:
  "map Inr results = map built rows \<Longrightarrow> list_all well_formed rows \<Longrightarrow>
   map image results = map (\<lambda>row. normalize_url (image_str row)) rows"
proof (induction rows arbitrary: results)
  case Nil
  then show ?case by simp
next
  case (Cons row rest)
  from Cons.prems(1) obtain r rs where rs: "results = r # rs" "built row = Inr r"
    "map Inr rs = map built rest"
    by (cases results) auto
  from Cons.prems(2) have "well_formed row" by simp
  then obtain u r' where "u \<noteq> []" "image_str row = u" "built row = Inr r'"
    "build_result row (JStr u) = Inr r'"
    by (rule well_formedD)
  with rs build_result_image [of row u r'] have "image r = normalize_url (image_str row)"
    by simp
  with Cons rs show ?case by simp
qed

lemma distinct_image_str:
  assumes "distinct (map (\<lambda>row. normalize_url (image_str row)) rows)"
  shows "distinct (map image_str rows)"
proof -
  have "map (\<lambda>row. normalize_url (image_str row)) rows
          = map normalize_url (map image_str rows)" by simp
  with assms have "distinct (map normalize_url (map image_str rows))" by simp
  then show ?thesis by (simp only: distinct_map)
qed

text \<open>
  Claim C8 as stated does not hold. The two pages of \<open>six_rows_same_picture\<close> and
  \<open>four_rows\<close> hold 6 and 4 well-formed entries whose image URLs are ten different
  strings, and with \<open>max_results = 8\<close> the outcome has 8 results from the primary
  provider, but the first three have the same image URL \<open>https://x/1.jpg\<close>: the
  entries \<open>//x/1.jpg\<close>, \<open>https://x/1.jpg\<close> and \<open>x/1.jpg\<close> are compared before
  \<open>_normalize_url\<close> and stored after it. And the two pages of \<open>six_rows_bad_height\<close>
  and \<open>four_rows\<close> hold 6 and 4 entries whose image URLs differ also after
  \<open>_normalize_url\<close>, but \<open>int\<close> raises on the height of the third entry, which ends
  the first page: the outcome has 6 results, not 8.
\<close>

theorem primary_extractor_duplicate_image_counterexample:
  "ddg_pages ''cats'' (new_api two_proxies keep_order (two_page_world six_rows_same_picture four_rows))
     = (Some six_rows_same_picture, Some four_rows)
   \<and> length six_rows_same_picture = 6 \<and> length four_rows = 4
   \<and> list_all well_formed (six_rows_same_picture @ four_rows)
   \<and> distinct (map image_str (six_rows_same_picture @ four_rows))
   \<and> image_urls (fst (search_images ''cats'' 8
        (new_api two_proxies keep_order (two_page_world six_rows_same_picture four_rows))))
       = Inr ([''https://x/1.jpg'', ''https://x/1.jpg'', ''https://x/1.jpg'', ''http://x/4.jpg'',
               ''https://x/5.jpg'', ''https://x/6.jpg'', ''https://x/7.jpg'', ''https://x/8.jpg''],
              ''DuckDuckGo'')
   \<and> \<not> distinct [''https://x/1.jpg'', ''https://x/1.jpg'', ''https://x/1.jpg'', ''http://x/4.jpg'',
               ''https://x/5.jpg'', ''https://x/6.jpg'', ''https://x/7.jpg'', ''https://x/8.jpg'']
   \<and> ddg_pages ''cats'' (new_api two_proxies keep_order (two_page_world six_rows_bad_height four_rows))
     = (Some six_rows_bad_height, Some four_rows)
   \<and> length six_rows_bad_height = 6
   \<and> distinct (map normalize_url (map image_str (six_rows_bad_height @ four_rows)))
   \<and> image_urls (fst (search_images ''cats'' 8
        (new_api two_proxies keep_order (two_page_world six_rows_bad_height four_rows))))
       = Inr ([''https://x/1.jpg'', ''https://x/2.jpg'', ''https://x/7.jpg'', ''https://x/8.jpg'',
               ''https://x/9.jpg'', ''https://x/10.jpg''],
              ''DuckDuckGo'')"
  by code_simp

text \<open>
  Claim C8, amended: in every outside world \<open>search_duckduckgo_images\<close> returns a list
  of at most \<open>max_results\<close> results (none when \<open>max_results\<close> is not positive), built
  in the provider's order from entries of the two pages that have a non-empty image
  URL, no two of them the same URL as the provider sent it. When every entry of the
  pages is an object whose image URL is a string or missing, and \<open>ImageResult(...)\<close>
  raises on none of the entries that are kept, the results are exactly those of the
  first \<open>max_results\<close> kept entries: each entry whose image URL is empty or was already
  seen, before normalization, is skipped and the loop goes on with the next one. In
  particular, when both pages arrive, every entry is well formed and the image URLs are
  distinct after \<open>_normalize_url\<close>, the results are those of the first \<open>max_results\<close>
  entries and their image URLs are distinct; with 6 and 4 entries and
  \<open>max_results = 8\<close> there are exactly 8 results and \<open>search_images\<close> returns them
  with engine \<open>DuckDuckGo\<close>.
\<close>

theorem primary_extractor_selection:
  "\<exists>results s'. search_duckduckgo_images kw m s = (Inr results, s')
     \<and> int (length results) \<le> max 0 m
     \<and> (\<exists>picked. subseq picked (offered kw s) \<and> map Inr results = map built picked
          \<and> list_all well_formed picked \<and> distinct (map image_str picked))
     \<and> (list_all is_entry (offered kw s) \<and> list_all builds (kept_entries {} (offered kw s))
        \<longrightarrow> map Inr results = take (nat m) (map built (kept_entries {} (offered kw s))))
     \<and> (ddg_pages kw s = (Some rows1, Some rows2) \<and> list_all well_formed (rows1 @ rows2)
          \<and> distinct (map (\<lambda>row. normalize_url (image_str row)) (rows1 @ rows2))
        \<longrightarrow> map Inr results = take (nat m) (map built (rows1 @ rows2))
           \<and> distinct (map image results)
           \<and> (length rows1 = 6 \<and> length rows2 = 4 \<and> m = 8 \<longrightarrow>
                length results = 8
                \<and> search_images kw m s = (Inr (results, ''DuckDuckGo''), s')))"
proof -
  obtain results s' where r: "search_duckduckgo_images kw m s = (Inr results, s')"
    using ddg_total by blast
  have exact: "map Inr results = take (nat m) (map built (kept_entries {} (offered kw s)))"
    if "list_all is_entry (offered kw s) \<and> list_all builds (kept_entries {} (offered kw s))"
    using that ddg_kept [of kw s m] r by simp
  have scen: "map Inr results = take (nat m) (map built (rows1 @ rows2))
           \<and> distinct (map image results)
           \<and> (length rows1 = 6 \<and> length rows2 = 4 \<and> m = 8 \<longrightarrow>
                length results = 8
                \<and> search_images kw m s = (Inr (results, ''DuckDuckGo''), s'))"
    if h: "ddg_pages kw s = (Some rows1, Some rows2) \<and> list_all well_formed (rows1 @ rows2)
          \<and> distinct (map (\<lambda>row. normalize_url (image_str row)) (rows1 @ rows2))"
  proof -
    from h have pg: "ddg_pages kw s = (Some rows1, Some rows2)"
      and wf: "list_all well_formed (rows1 @ rows2)"
      and dn: "distinct (map (\<lambda>row. normalize_url (image_str row)) (rows1 @ rows2))"
      by blast+
    from distinct_image_str [OF dn] have "distinct (map image_str (rows1 @ rows2))" .
    from ddg_all [OF pg wf this, of m] r
    have eq: "map Inr results = take (nat m) (map built (rows1 @ rows2))" by simp
    then have eq': "map Inr results = map built (take (nat m) (rows1 @ rows2))"
      by (simp only: take_map)
    from wf have "list_all well_formed (take (nat m) (rows1 @ rows2))"
      by (auto simp: list_all_iff dest: in_set_takeD)
    from built_images [OF eq' this]
    have "map image results
            = take (nat m) (map (\<lambda>row. normalize_url (image_str row)) (rows1 @ rows2))"
      by (simp only: take_map)
    with dn have d: "distinct (map image results)" by (simp only: distinct_take)
    have "length results = 8 \<and> search_images kw m s = (Inr (results, ''DuckDuckGo''), s')"
      if n: "length rows1 = 6 \<and> length rows2 = 4 \<and> m = 8"
    proof -
      from eq have "length (map Inr results :: (exn + image_result) list)
                      = length (take (nat m) (map built (rows1 @ rows2)))"
        by (simp only:)
      with n have len: "length results = 8" by simp
      then have "results \<noteq> []" by auto
      with r len show ?thesis by (simp add: search_images_def)
    qed
    with eq d show ?thesis by blast
  qed
  from r ddg_bound [OF r] ddg_picked [OF r] exact scen show ?thesis by blast
qed

theorem primary_extractor_selection_witness:
  "ddg_pages ''cats'' (new_api two_proxies keep_order (two_page_world six_rows four_rows))
     = (Some six_rows, Some four_rows)
   \<and> list_all well_formed (six_rows @ four_rows)
   \<and> distinct (map (\<lambda>row. normalize_url (image_str row)) (six_rows @ four_rows))
   \<and> length six_rows = 6 \<and> length four_rows = 4
   \<and> (\<exists>results s'.
         search_images ''cats'' 8 (new_api two_proxies keep_order (two_page_world six_rows four_rows))
           = (Inr (results, ''DuckDuckGo''), s')
         \<and> length results = 8 \<and> distinct (map image results)
         \<and> map Inr results = take 8 (map built (six_rows @ four_rows)))
   \<and> offered ''cats''
        (new_api two_proxies keep_order (two_page_world rows_with_repeats rows_seen_before))
       = rows_with_repeats @ rows_seen_before
   \<and> list_all is_entry (rows_with_repeats @ rows_seen_before)
   \<and> kept_entries {} (rows_with_repeats @ rows_seen_before)
       = [sample_row ''//x/1.jpg'', sample_row ''x/2.jpg'', sample_row ''//x/3.jpg'',
          sample_row ''//x/4.jpg'']
   \<and> list_all builds [sample_row ''//x/1.jpg'', sample_row ''x/2.jpg'', sample_row ''//x/3.jpg'',
          sample_row ''//x/4.jpg'']
   \<and> (\<exists>results s'.
         search_duckduckgo_images ''cats'' 3
           (new_api two_proxies keep_order (two_page_world rows_with_repeats rows_seen_before))
           = (Inr results, s')
         \<and> map Inr results
             = map built [sample_row ''//x/1.jpg'', sample_row ''x/2.jpg'', sample_row ''//x/3.jpg''])"
proof -
  let ?W = "new_api two_proxies keep_order (two_page_world six_rows four_rows)"
  let ?V = "new_api two_proxies keep_order (two_page_world rows_with_repeats rows_seen_before)"
  let ?K = "[sample_row ''//x/1.jpg'', sample_row ''x/2.jpg'', sample_row ''//x/3.jpg'',
             sample_row ''//x/4.jpg'']"
  have pg: "ddg_pages ''cats'' ?W = (Some six_rows, Some four_rows)"
    by code_simp
  have wf: "list_all well_formed (six_rows @ four_rows)"
    by code_simp
  have dn: "distinct (map (\<lambda>row. normalize_url (image_str row)) (six_rows @ four_rows))"
    by code_simp
  have n: "length six_rows = 6" "length four_rows = 4"
    by (simp_all add: six_rows_def four_rows_def)
  have off: "offered ''cats'' ?V = rows_with_repeats @ rows_seen_before"
    by code_simp
  have ent: "list_all is_entry (rows_with_repeats @ rows_seen_before)"
    by code_simp
  have k: "kept_entries {} (rows_with_repeats @ rows_seen_before) = ?K"
    by code_simp
  have b: "list_all builds ?K"
    by code_simp
  from primary_extractor_selection [of "''cats''" 8 ?W six_rows four_rows] pg wf dn n
  have a1: "\<exists>results s'. search_images ''cats'' 8 ?W = (Inr (results, ''DuckDuckGo''), s')
         \<and> length results = 8 \<and> distinct (map image results)
         \<and> map Inr results = take 8 (map built (six_rows @ four_rows))"
    by auto
  from primary_extractor_selection [of "''cats''" 3 ?V "[]" "[]"] off ent k b
  have a2: "\<exists>results s'. search_duckduckgo_images ''cats'' 3 ?V = (Inr results, s')
         \<and> map Inr results
             = map built [sample_row ''//x/1.jpg'', sample_row ''x/2.jpg'', sample_row ''//x/3.jpg'']"
    by auto
  from pg wf dn n a1 off ent k b a2 show ?thesis by blast
qed

end
